theory Spec2Isabelle
  imports Main
begin

section \<open>Boards\<close>

text \<open>
  The source declares \<^verbatim>\<open>type CellValue = number | null\<close> and
  \<^verbatim>\<open>type BoardType = CellValue[][]\<close>. A cell is \<open>Null\<close> or a number; the
  numbers the program stores are integers, so they are modelled as \<open>int\<close>.
  \<open>Undefined\<close> is what JavaScript yields when a row is read past its end; it is never
  stored by the program.
\<close>

datatype val = Undefined | Null | Num int

type_synonym board = "val list list"

type_synonym pos = "nat \<times> nat"

text \<open>
  The read \<^verbatim>\<open>board[row][col]\<close>. When \<open>row\<close> is past the end of the outer array,
  \<^verbatim>\<open>board[row]\<close> is \<^verbatim>\<open>undefined\<close> and indexing it throws a TypeError: that is the
  result \<open>None\<close>. When only \<open>col\<close> is past the end of the row, the read yields
  \<^verbatim>\<open>undefined\<close>.
\<close>

definition cell :: "board \<Rightarrow> nat \<Rightarrow> nat \<Rightarrow> val option" where
  "cell b row col =
     (if row < length b
      then Some (if col < length (b ! row) then b ! row ! col else Undefined)
      else None)"

text \<open>
  The write \<^verbatim>\<open>newBoard[row][col] = v\<close> on a copy of the board. The solver writes only
  at a position it has just read as \<^verbatim>\<open>null\<close>, which is inside the board (\<open>find_null_Some\<close>
  below); at any other position list update leaves the board as it is, a case the
  solver never reaches.
\<close>

definition place :: "board \<Rightarrow> nat \<Rightarrow> nat \<Rightarrow> val \<Rightarrow> board" where
  "place b row col v = b[row := (b ! row)[col := v]]"

text \<open>A board of the data model: nine rows of nine cells.\<close>

definition board9 :: "board \<Rightarrow> bool" where
  "board9 b = (length b = 9 \<and> list_all (\<lambda>row. length row = 9) b)"

text \<open>Every cell is empty or holds one of the values 1 to 9.\<close>

definition cells_ok :: "board \<Rightarrow> bool" where
  "cells_ok b =
     list_all (list_all (\<lambda>v. v = Null \<or> (\<exists>n \<in> {1..9}. v = Num n))) b"

section \<open>The validator \<^verbatim>\<open>isValid\<close>\<close>

text \<open>
  Each of the three loops of \<^verbatim>\<open>isValid\<close> walks a list of positions in order and
  returns \<^verbatim>\<open>false\<close> at the first cell that is \<^verbatim>\<open>=== num\<close>. \<open>scan_for\<close> is that
  walk: \<open>Some True\<close> when a cell equal to \<open>num\<close> was met, \<open>Some False\<close> when the walk
  ended without one, \<open>None\<close> when a read threw.
\<close>

fun scan_for :: "board \<Rightarrow> int \<Rightarrow> pos list \<Rightarrow> bool option" where
  "scan_for b num [] = Some False"
| "scan_for b num (p # ps) =
     (case cell b (fst p) (snd p) of
        None \<Rightarrow> None
      | Some v \<Rightarrow> if v = Num num then Some True else scan_for b num ps)"

definition row_cells :: "nat \<Rightarrow> pos list" where
  "row_cells row = map (\<lambda>x. (row, x)) [0..<9]"

definition col_cells :: "nat \<Rightarrow> pos list" where
  "col_cells col = map (\<lambda>x. (x, col)) [0..<9]"

text \<open>The nine cells of the box whose top left corner is \<open>(r0, c0)\<close>, row by row.\<close>

definition box_cells :: "nat \<Rightarrow> nat \<Rightarrow> pos list" where
  "box_cells r0 c0 = concat (map (\<lambda>i. map (\<lambda>j. (r0 + i, c0 + j)) [0..<3]) [0..<3])"

definition isValid :: "board \<Rightarrow> nat \<Rightarrow> nat \<Rightarrow> int \<Rightarrow> bool option" where
  "isValid b row col num =
     (case scan_for b num (row_cells row) of
        None \<Rightarrow> None
      | Some True \<Rightarrow> Some False
      | Some False \<Rightarrow>
         (case scan_for b num (col_cells col) of
            None \<Rightarrow> None
          | Some True \<Rightarrow> Some False
          | Some False \<Rightarrow>
             (let boxStartRow = (row div 3) * 3;
                  boxStartCol = (col div 3) * 3
              in case scan_for b num (box_cells boxStartRow boxStartCol) of
                   None \<Rightarrow> None
                 | Some True \<Rightarrow> Some False
                 | Some False \<Rightarrow> Some True)))"

section \<open>The backtracking solver \<^verbatim>\<open>solveSudoku\<close>\<close>

text \<open>The positions in the order of the two outer loops: row 0 to 8, in each row column 0 to 8.\<close>

definition all_cells :: "pos list" where
  "all_cells = concat (map (\<lambda>row. map (\<lambda>col. (row, col)) [0..<9]) [0..<9])"

text \<open>
  The search for the first cell that is \<^verbatim>\<open>=== null\<close>: \<open>Some (Some p)\<close> at the first
  such position, \<open>Some None\<close> when the loops end without one, \<open>None\<close> when a read threw.
\<close>

fun find_null :: "board \<Rightarrow> pos list \<Rightarrow> pos option option" where
  "find_null b [] = Some None"
| "find_null b (p # ps) =
     (case cell b (fst p) (snd p) of
        None \<Rightarrow> None
      | Some v \<Rightarrow> if v = Null then Some (Some p) else find_null b ps)"

text \<open>The number of empty cells of a board, the measure of the recursion.\<close>

definition empties :: "board \<Rightarrow> nat" where
  "empties b = sum_list (map (\<lambda>row. count_list row Null) b)"

lemma count_list_update:
  "i < length xs \<Longrightarrow>
     count_list (xs[i := v]) a + (if xs ! i = a then 1 else 0)
       = count_list xs a + (if v = a then 1 else 0)"
proof (induction xs arbitrary: i)
  case Nil
  then show ?case by simp
next
  case (Cons x xs)
  show ?case
  proof (cases i)
    case 0
    then show ?thesis by simp
  next
    case (Suc j)
    with Cons.prems have "j < length xs" by simp
    from Cons.IH[OF this] Suc show ?thesis by (auto split: if_splits)
  qed
qed

lemma sum_list_map_update:
  "i < length xs \<Longrightarrow>
     sum_list (map f (xs[i := x])) + f (xs ! i) = sum_list (map f xs) + (f x :: nat)"
  by (induction xs arbitrary: i) (auto split: nat.splits)

lemma empties_place:
  assumes "row < length b" "col < length (b ! row)"
  shows "empties (place b row col v) + (if b ! row ! col = Null then 1 else 0)
         = empties b + (if v = Null then 1 else 0)"
  using sum_list_map_update[OF assms(1), of "\<lambda>row. count_list row Null" "(b ! row)[col := v]"]
        count_list_update[OF assms(2), of v Null]
  by (simp add: empties_def place_def split: if_splits)

lemma place_out_of_range:
  "\<not> (row < length b \<and> col < length (b ! row)) \<Longrightarrow> place b row col v = b"
  by (auto simp: place_def list_update_beyond)

lemma empties_place_Num:
  "empties (place b row col (Num x)) = empties (place b row col (Num y))"
proof (cases "row < length b \<and> col < length (b ! row)")
  case True
  then show ?thesis
    using empties_place[of row b col "Num x"] empties_place[of row b col "Num y"] by simp
next
  case False
  then show ?thesis by (simp add: place_out_of_range)
qed

lemma find_null_Some:
  "find_null b ps = Some (Some p) \<Longrightarrow>
     p \<in> set ps \<and> fst p < length b \<and> snd p < length (b ! fst p) \<and> b ! fst p ! snd p = Null"
  by (induction ps) (auto simp: cell_def split: if_splits option.splits)

text \<open>
  \<open>solveSudoku\<close> is the body of the source function up to the candidate loop, and
  \<open>try_nums b row col num\<close> is the loop \<^verbatim>\<open>for (let num = 1; num <= 9; num++)\<close> from
  candidate \<open>num\<close> on, at the empty cell \<open>(row, col)\<close>. The source copies the board before
  it writes (\<^verbatim>\<open>const newBoard = [...board]; newBoard[row] = [...newBoard[row]]\<close>), so the
  board of the caller keeps its content and the model passes boards as values; the
  section on the store of arrays models the copying itself. The two \<^verbatim>\<open>await\<close>s on a timer
  only delay the next step; they change no value and are left out.

  The result is \<open>None\<close> when a read threw a TypeError, and otherwise the boolean the
  function resolves to, with the boards handed to \<^verbatim>\<open>setBoard\<close> in the order of the calls
  (the content of each board at the moment of the call).
\<close>

function solveSudoku :: "board \<Rightarrow> (bool \<times> board list) option"
  and try_nums :: "board \<Rightarrow> nat \<Rightarrow> nat \<Rightarrow> int \<Rightarrow> (bool \<times> board list) option"
where
  "solveSudoku b =
     (case find_null b all_cells of
        None \<Rightarrow> None
      | Some None \<Rightarrow> Some (True, [])
      | Some (Some (row, col)) \<Rightarrow> try_nums b row col 1)"
| "try_nums b row col num =
     (if num \<le> 9 then
        (case isValid b row col num of
           None \<Rightarrow> None
         | Some False \<Rightarrow> try_nums b row col (num + 1)
         | Some True \<Rightarrow>
            (let newBoard = place b row col (Num num)
             in case solveSudoku newBoard of
                  None \<Rightarrow> None
                | Some (True, snaps) \<Rightarrow> Some (True, newBoard # snaps)
                | Some (False, snaps) \<Rightarrow>
                   (case try_nums b row col (num + 1) of
                      None \<Rightarrow> None
                    | Some (res, snaps') \<Rightarrow>
                        Some (res, newBoard # snaps @ place newBoard row col Null # snaps'))))
      else Some (False, []))"
  by pat_completeness auto
termination
proof (relation "measures
    [(\<lambda>x :: board + board \<times> nat \<times> nat \<times> int.
        case x of Inl b \<Rightarrow> empties b
                | Inr (b, row, col, num) \<Rightarrow> empties (place b row col (Num 0)) + 1),
     (\<lambda>x :: board + board \<times> nat \<times> nat \<times> int.
        case x of Inl b \<Rightarrow> 11
                | Inr (b, row, col, num) \<Rightarrow> nat (10 - num))]", goal_cases)
  case 1
  then show ?case by simp
next
  case (2 b x2 x2a row col)
  then have "find_null b all_cells = Some (Some (row, col))" by simp
  from find_null_Some[OF this] empties_place[of row b col "Num 0"]
  show ?case by simp
next
  case (3 b row col num x2 x)
  then show ?case using empties_place_Num[of b row col num 0] by simp
next
  case (4 b row col num x2 x x2a xa y)
  then show ?case by simp
next
  case (5 b row col num x2)
  then show ?case by simp
qed

text \<open>The board on display when the run ends: the last board handed to \<^verbatim>\<open>setBoard\<close>,
  or the input board when there was no such call.\<close>

definition final_board :: "board \<Rightarrow> board list \<Rightarrow> board" where
  "final_board b snaps = (if snaps = [] then b else last snaps)"

section \<open>Properties of boards\<close>

text \<open>The content of the cell at a position inside the board.\<close>

definition at :: "board \<Rightarrow> pos \<Rightarrow> val" where
  "at b p = b ! fst p ! snd p"

text \<open>Two positions share a unit: the same row, the same column or the same 3x3 box.\<close>

definition same_unit :: "pos \<Rightarrow> pos \<Rightarrow> bool" where
  "same_unit p q =
     (fst p = fst q \<or> snd p = snd q \<or> (fst p div 3 = fst q div 3 \<and> snd p div 3 = snd q div 3))"

text \<open>No two non-empty cells of one row, column or box hold the same value.\<close>

definition no_dups :: "board \<Rightarrow> bool" where
  "no_dups b =
     (\<forall>p \<in> set all_cells. \<forall>q \<in> set all_cells.
        p \<noteq> q \<and> same_unit p q \<and> at b p \<noteq> Null \<longrightarrow> at b p \<noteq> at b q)"

text \<open>No cell is empty.\<close>

definition full :: "board \<Rightarrow> bool" where
  "full b = (\<forall>p \<in> set all_cells. at b p \<noteq> Null)"

text \<open>The 27 units: the rows, the columns and the boxes, each as the list of its positions.\<close>

definition units :: "pos list list" where
  "units = map row_cells [0..<9] @ map col_cells [0..<9]
           @ concat (map (\<lambda>i. map (\<lambda>j. box_cells (i * 3) (j * 3)) [0..<3]) [0..<3])"

text \<open>Every row, column and box contains each of the values 1 to 9 exactly once.\<close>

definition solved :: "board \<Rightarrow> bool" where
  "solved s =
     (board9 s \<and> (\<forall>u \<in> set units. \<forall>n \<in> {1..9}. count_list (map (at s) u) (Num n) = 1))"

text \<open>\<open>s\<close> is a valid completion of \<open>b\<close>: it is solved and keeps every filled cell of \<open>b\<close>.\<close>

definition completion :: "board \<Rightarrow> board \<Rightarrow> bool" where
  "completion b s = (solved s \<and> (\<forall>p \<in> set all_cells. at b p \<noteq> Null \<longrightarrow> at s p = at b p))"

text \<open>\<open>s\<close> agrees with \<open>b\<close> on every cell that is filled in \<open>b\<close>.\<close>

definition keeps :: "board \<Rightarrow> board \<Rightarrow> bool" where
  "keeps b s = (\<forall>p \<in> set all_cells. at b p \<noteq> Null \<longrightarrow> at s p = at b p)"

text \<open>The board of \<^verbatim>\<open>resetBoard\<close> in the source.\<close>

definition exampleBoard :: board where
  "exampleBoard =
    [[Num 5, Num 3, Null, Null, Num 7, Null, Null, Null, Null],
     [Num 6, Null, Null, Num 1, Num 9, Num 5, Null, Null, Null],
     [Null, Num 9, Num 8, Null, Null, Null, Null, Num 6, Null],
     [Num 8, Null, Null, Null, Num 6, Null, Null, Null, Num 3],
     [Num 4, Null, Null, Num 8, Null, Num 3, Null, Null, Num 1],
     [Num 7, Null, Null, Null, Num 2, Null, Null, Null, Num 6],
     [Null, Num 6, Null, Null, Null, Null, Num 2, Num 8, Null],
     [Null, Null, Null, Num 4, Num 1, Num 9, Null, Null, Num 5],
     [Null, Null, Null, Null, Num 8, Null, Null, Num 7, Num 9]]"

text \<open>The empty board, and a board whose cells all hold the same value.\<close>

definition blank :: board where
  "blank = replicate 9 (replicate 9 Null)"

definition all_ones :: board where
  "all_ones = replicate 9 (replicate 9 (Num 1))"

text \<open>
  \<open>v\<close> occurs in a cell other than \<open>(r, c)\<close> of row \<open>r\<close>, of column \<open>c\<close> or of the box
  that contains \<open>(r, c)\<close>.
\<close>

definition occurs_elsewhere :: "board \<Rightarrow> nat \<Rightarrow> nat \<Rightarrow> int \<Rightarrow> bool" where
  "occurs_elsewhere b r c v =
     ((\<exists>x \<in> {0..<9}. x \<noteq> c \<and> at b (r, x) = Num v)
      \<or> (\<exists>x \<in> {0..<9}. x \<noteq> r \<and> at b (x, c) = Num v)
      \<or> (\<exists>i \<in> {0..<3}. \<exists>j \<in> {0..<3}.
            (r div 3 * 3 + i, c div 3 * 3 + j) \<noteq> (r, c)
            \<and> at b (r div 3 * 3 + i, c div 3 * 3 + j) = Num v))"

text \<open>The positions \<^verbatim>\<open>isValid\<close> reads for the cell \<open>(row, col)\<close>.\<close>

definition peers :: "nat \<Rightarrow> nat \<Rightarrow> pos list" where
  "peers row col = row_cells row @ col_cells col @ box_cells (row div 3 * 3) (col div 3 * 3)"

text \<open>The solved grid of the specification, and boards made from it for the examples.\<close>

definition solvedGrid :: board where
  "solvedGrid = map (map Num)
    [[5, 3, 4, 6, 7, 8, 9, 1, 2],
     [6, 7, 2, 1, 9, 5, 3, 4, 8],
     [1, 9, 8, 3, 4, 2, 5, 6, 7],
     [8, 5, 9, 7, 6, 1, 4, 2, 3],
     [4, 2, 6, 8, 5, 3, 7, 9, 1],
     [7, 1, 3, 9, 2, 4, 8, 5, 6],
     [9, 6, 1, 5, 3, 7, 2, 8, 4],
     [2, 8, 7, 4, 1, 9, 6, 3, 5],
     [3, 4, 5, 2, 8, 6, 1, 7, 9]]"

text \<open>Three cells cleared. The search places 3 at \<open>(0, 0)\<close> first, meets a dead end at
  \<open>(0, 1)\<close> and backtracks.\<close>

definition threeBlanks :: board where
  "threeBlanks = place (place (place solvedGrid 0 0 Null) 0 1 Null) 8 0 Null"

text \<open>No duplicates, and no value fits the empty cell \<open>(0, 8)\<close>.\<close>

definition deadEnd :: board where
  "deadEnd = place (place (place solvedGrid 0 8 Null) 1 8 (Num 2)) 1 2 Null"

text \<open>Two cells cleared on a board that repeats one value everywhere.\<close>

definition twoBlanks :: board where
  "twoBlanks = place (place all_ones 0 0 Null) 0 1 Null"

text \<open>
  \<open>calls b b'\<close>: the source can reach \<^verbatim>\<open>solveSudoku(newBoard)\<close> with \<open>newBoard = b'\<close> inside
  \<^verbatim>\<open>solveSudoku(b)\<close>. The call stands in the candidate loop at the first empty cell, behind
  \<^verbatim>\<open>if (isValid(board, row, col, num))\<close>. A \<open>call_chain\<close> is a stack of nested calls.
\<close>

definition calls :: "board \<Rightarrow> board \<Rightarrow> bool" where
  "calls b b' =
     (case find_null b all_cells of
        Some (Some (row, col)) \<Rightarrow>
          (\<exists>num \<in> {1..9}. isValid b row col num = Some True \<and> b' = place b row col (Num num))
      | _ \<Rightarrow> False)"

fun call_chain :: "board list \<Rightarrow> bool" where
  "call_chain (b # b' # bs) = (calls b b' \<and> call_chain (b' # bs))"
| "call_chain _ = True"

section \<open>The checker \<^verbatim>\<open>checkSolution\<close>\<close>

text \<open>
  \<^verbatim>\<open>!value\<close> in the checker: true for \<^verbatim>\<open>null\<close>, for \<^verbatim>\<open>undefined\<close> and for the number 0. A
  board of the data model holds no 0, so there the test singles out the empty cells.
\<close>

definition falsy :: "val \<Rightarrow> bool" where
  "falsy v = (v = Undefined \<or> v = Null \<or> v = Num 0)"

text \<open>
  \<^verbatim>\<open>conflicts.add(key)\<close> on a \<^verbatim>\<open>Set\<close>: the list keeps the order of insertion, which is
  the order \<^verbatim>\<open>Array.from(conflicts)\<close> returns, and holds a position once.
\<close>

definition add_conflict :: "pos \<Rightarrow> pos list \<Rightarrow> pos list" where
  "add_conflict p conflicts = (if p \<in> set conflicts then conflicts else conflicts @ [p])"

text \<open>
  The inner loop that marks all instances of \<open>value\<close> in a unit: it walks the positions of
  the unit and adds each one whose cell is \<^verbatim>\<open>=== value\<close>.
\<close>

fun mark :: "board \<Rightarrow> val \<Rightarrow> pos list \<Rightarrow> pos list \<Rightarrow> pos list option" where
  "mark b value [] conflicts = Some conflicts"
| "mark b value (q # qs) conflicts =
     (case cell b (fst q) (snd q) of
        None \<Rightarrow> None
      | Some w \<Rightarrow> mark b value qs (if w = value then add_conflict q conflicts else conflicts))"

text \<open>
  The loop over the cells of one unit \<open>u\<close>, from the positions \<open>ps\<close> on, with the set
  \<open>seen\<close> of the values met so far in the unit.
\<close>

fun scan_unit :: "board \<Rightarrow> pos list \<Rightarrow> pos list \<Rightarrow> val set \<Rightarrow> pos list \<Rightarrow> pos list option" where
  "scan_unit b u [] seen conflicts = Some conflicts"
| "scan_unit b u (p # ps) seen conflicts =
     (case cell b (fst p) (snd p) of
        None \<Rightarrow> None
      | Some value \<Rightarrow>
          if falsy value then scan_unit b u ps seen conflicts
          else (case (if value \<in> seen then mark b value u conflicts else Some conflicts) of
                  None \<Rightarrow> None
                | Some conflicts' \<Rightarrow> scan_unit b u ps (insert value seen) conflicts'))"

text \<open>The three blocks of loops, unit after unit: rows, then columns, then boxes.\<close>

fun check_units :: "board \<Rightarrow> pos list list \<Rightarrow> pos list \<Rightarrow> pos list option" where
  "check_units b [] conflicts = Some conflicts"
| "check_units b (u # us) conflicts =
     (case scan_unit b u u {} conflicts of
        None \<Rightarrow> None
      | Some conflicts' \<Rightarrow> check_units b us conflicts')"

text \<open>
  The search for empty cells. \<^verbatim>\<open>break\<close> leaves the loop over the columns only:
  \<open>row_filled\<close> is that loop for one row (\<open>Some False\<close> when it met a falsy cell and
  broke), and \<open>rows_filled\<close> is the loop over the rows, which carries \<^verbatim>\<open>isComplete\<close>.
\<close>

fun row_filled :: "board \<Rightarrow> nat \<Rightarrow> nat list \<Rightarrow> bool option" where
  "row_filled b row [] = Some True"
| "row_filled b row (col # cols) =
     (case cell b row col of
        None \<Rightarrow> None
      | Some v \<Rightarrow> if falsy v then Some False else row_filled b row cols)"

fun rows_filled :: "board \<Rightarrow> nat list \<Rightarrow> bool \<Rightarrow> bool option" where
  "rows_filled b [] isComplete = Some isComplete"
| "rows_filled b (row # rows) isComplete =
     (case row_filled b row [0..<9] of
        None \<Rightarrow> None
      | Some ok \<Rightarrow> rows_filled b rows (isComplete \<and> ok))"

text \<open>
  \<^verbatim>\<open>checkSolution\<close> reads the board of the component state; here it is the argument. The
  result is the pair of \<^verbatim>\<open>isValid\<close> and \<^verbatim>\<open>conflicts\<close>, or \<open>None\<close> when a read threw.
\<close>

definition checkSolution :: "board \<Rightarrow> (bool \<times> pos list) option" where
  "checkSolution b =
     (case check_units b units [] of
        None \<Rightarrow> None
      | Some conflicts \<Rightarrow>
         (case rows_filled b [0..<9] True of
            None \<Rightarrow> None
          | Some isComplete \<Rightarrow> Some (isComplete \<and> conflicts = [], conflicts)))"

text \<open>The board with 5 at \<open>(0, 0)\<close> and at \<open>(0, 3)\<close> and nothing else.\<close>

definition fiveTwice :: board where
  "fiveTwice = place (place blank 0 0 (Num 5)) 0 3 (Num 5)"

section \<open>Notions for the checker\<close>

text \<open>
  \<open>hit v seen vs\<close>: walking the values \<open>vs\<close> of a unit with the set \<open>seen\<close>, the value
  \<open>v\<close> is met at a moment when it is already in the set.
\<close>

fun hit :: "val \<Rightarrow> val set \<Rightarrow> val list \<Rightarrow> bool" where
  "hit v seen [] = False"
| "hit v seen (x # xs) = ((x = v \<and> v \<in> seen) \<or> hit v (if falsy x then seen else insert x seen) xs)"

text \<open>A position of a unit whose value the unit holds twice or more.\<close>

definition doubled :: "board \<Rightarrow> pos list \<Rightarrow> pos \<Rightarrow> bool" where
  "doubled b u q = (q \<in> set u \<and> \<not> falsy (at b q) \<and> 2 \<le> count_list (map (at b) u) (at b q))"

text \<open>No cell of the board is falsy: the value of \<^verbatim>\<open>isComplete\<close>.\<close>

definition complete :: "board \<Rightarrow> bool" where
  "complete b = (\<forall>p \<in> set all_cells. \<not> falsy (at b p))"

section \<open>The solver on a store of arrays\<close>

text \<open>
  A JavaScript array is an object, and a variable of type \<^verbatim>\<open>BoardType\<close> holds a reference.
  The store keeps the outer arrays (lists of references to rows) and the rows (lists of
  cells), each addressed by its index; a new array is appended, so it gets an address
  that was not in use.
\<close>

record store =
  outers :: "nat list list"
  inners :: "val list list"

text \<open>The content of the board at reference \<open>a\<close>: what \<^verbatim>\<open>board[row][col]\<close> reads.\<close>

definition board_of :: "store \<Rightarrow> nat \<Rightarrow> board" where
  "board_of h a = map (\<lambda>r. inners h ! r) (outers h ! a)"

text \<open>The reference points to an outer array of the store, and its elements to rows of the store.\<close>

definition valid_board :: "store \<Rightarrow> nat \<Rightarrow> bool" where
  "valid_board h a = (a < length (outers h) \<and> list_all (\<lambda>r. r < length (inners h)) (outers h ! a))"

text \<open>\<^verbatim>\<open>[...board]\<close> on an outer array and on a row: a new array with the same elements.\<close>

definition copy_outer :: "store \<Rightarrow> nat \<Rightarrow> nat \<times> store" where
  "copy_outer h a = (length (outers h), h\<lparr>outers := outers h @ [outers h ! a]\<rparr>)"

definition copy_row :: "store \<Rightarrow> nat \<Rightarrow> nat \<times> store" where
  "copy_row h r = (length (inners h), h\<lparr>inners := inners h @ [inners h ! r]\<rparr>)"

text \<open>\<^verbatim>\<open>board[i] = r\<close> and \<^verbatim>\<open>board[i][j] = v\<close>, in place.\<close>

definition set_outer :: "store \<Rightarrow> nat \<Rightarrow> nat \<Rightarrow> nat \<Rightarrow> store" where
  "set_outer h a i r = h\<lparr>outers := (outers h)[a := (outers h ! a)[i := r]]\<rparr>"

definition set_cell :: "store \<Rightarrow> nat \<Rightarrow> nat \<Rightarrow> nat \<Rightarrow> val \<Rightarrow> store" where
  "set_cell h a i j v =
     (let r = outers h ! a ! i in h\<lparr>inners := (inners h)[r := (inners h ! r)[j := v]]\<rparr>)"

text \<open>
  The three statements that place a number:
  \<^verbatim>\<open>const newBoard = [...board]; newBoard[row] = [...newBoard[row]]; newBoard[row][col] = num\<close>.
  The result is the reference \<^verbatim>\<open>newBoard\<close> and the store after the statements. When
  \<open>row\<close> is past the end of the outer array, \<^verbatim>\<open>newBoard[row]\<close> is \<^verbatim>\<open>undefined\<close> and the spread
  throws.
\<close>

definition copy_and_place :: "store \<Rightarrow> nat \<Rightarrow> nat \<Rightarrow> nat \<Rightarrow> val \<Rightarrow> (nat \<times> store) option" where
  "copy_and_place h board row col v =
     (let (newBoard, h1) = copy_outer h board
      in if row < length (outers h1 ! newBoard)
         then (let (newRow, h2) = copy_row h1 (outers h1 ! newBoard ! row);
                   h3 = set_outer h2 newBoard row newRow
               in Some (newBoard, set_cell h3 newBoard row col v))
         else None)"

text \<open>
  \<^verbatim>\<open>setBoard([...newBoard])\<close>: a copy of the outer array is handed over; the result is
  the content it shows at that moment and the store with the copy.
\<close>

definition show_board :: "store \<Rightarrow> nat \<Rightarrow> board \<times> store" where
  "show_board h newBoard = (let (shown, h') = copy_outer h newBoard in (board_of h' shown, h'))"

text \<open>
  \<^verbatim>\<open>solveSudoku\<close> on the store. \<open>fuel\<close> bounds the depth of the nested calls; the result is
  \<open>None\<close> when the fuel runs out or a read throws, and otherwise the boolean, the boards
  shown and the store at the end.
\<close>

function solveSudoku_st :: "nat \<Rightarrow> store \<Rightarrow> nat \<Rightarrow> (bool \<times> board list \<times> store) option"
  and try_nums_st :: "nat \<Rightarrow> store \<Rightarrow> nat \<Rightarrow> nat \<Rightarrow> nat \<Rightarrow> int \<Rightarrow> (bool \<times> board list \<times> store) option"
where
  "solveSudoku_st 0 h board = None"
| "solveSudoku_st (Suc fuel) h board =
     (case find_null (board_of h board) all_cells of
        None \<Rightarrow> None
      | Some None \<Rightarrow> Some (True, [], h)
      | Some (Some (row, col)) \<Rightarrow> try_nums_st fuel h board row col 1)"
| "try_nums_st fuel h board row col num =
     (if num \<le> 9 then
        (case isValid (board_of h board) row col num of
           None \<Rightarrow> None
         | Some False \<Rightarrow> try_nums_st fuel h board row col (num + 1)
         | Some True \<Rightarrow>
            (case copy_and_place h board row col (Num num) of
               None \<Rightarrow> None
             | Some (newBoard, h1) \<Rightarrow>
                (case show_board h1 newBoard of (snap, h2) \<Rightarrow>
                   (case solveSudoku_st fuel h2 newBoard of
                      None \<Rightarrow> None
                    | Some (True, snaps, h3) \<Rightarrow> Some (True, snap # snaps, h3)
                    | Some (False, snaps, h3) \<Rightarrow>
                       (case show_board (set_cell h3 newBoard row col Null) newBoard of
                          (snap', h4) \<Rightarrow>
                            (case try_nums_st fuel h4 board row col (num + 1) of
                               None \<Rightarrow> None
                             | Some (res, snaps', h5) \<Rightarrow>
                                 Some (res, snap # snaps @ snap' # snaps', h5)))))))
      else Some (False, [], h))"
  by pat_completeness auto
termination
  by (relation "measures
    [(\<lambda>x :: nat \<times> store \<times> nat + nat \<times> store \<times> nat \<times> nat \<times> nat \<times> int.
        case x of Inl (fuel, h, a) \<Rightarrow> fuel | Inr (fuel, h, a, row, col, num) \<Rightarrow> fuel),
     (\<lambda>x :: nat \<times> store \<times> nat + nat \<times> store \<times> nat \<times> nat \<times> nat \<times> int.
        case x of Inl (fuel, h, a) \<Rightarrow> 0 | Inr (fuel, h, a, row, col, num) \<Rightarrow> nat (10 - num) + 1)]")
     auto

text \<open>The store in which the board \<open>b\<close> lies at reference 0, its rows at 0, 1, ...\<close>

definition store_of :: "board \<Rightarrow> store" where
  "store_of b = \<lparr>outers = [[0..<length b]], inners = b\<rparr>"

definition oneBlank :: board where
  "oneBlank = place solvedGrid 8 8 Null"

text \<open>\<open>h'\<close> holds every array of \<open>h\<close>, with the same content, and possibly new ones.\<close>

definition extends :: "store \<Rightarrow> store \<Rightarrow> bool" where
  "extends h h' = (\<exists>os rs. outers h' = outers h @ os \<and> inners h' = inners h @ rs)"

text \<open>
  The board at \<open>nb\<close> in \<open>h\<close> was made after the store \<open>h0\<close>, and so was its row \<open>row\<close>; its
  other rows are rows of \<open>h0\<close>.
\<close>

definition private_row :: "store \<Rightarrow> store \<Rightarrow> nat \<Rightarrow> nat \<Rightarrow> bool" where
  "private_row h0 h nb row =
     (valid_board h nb \<and> length (outers h0) \<le> nb \<and> row < length (outers h ! nb)
      \<and> length (inners h0) \<le> outers h ! nb ! row
      \<and> (\<forall>i < length (outers h ! nb). i \<noteq> row \<longrightarrow> outers h ! nb ! i < length (inners h0)))"

section \<open>Auxiliary facts\<close>

lemma in_all_cells: "p \<in> set all_cells \<longleftrightarrow> fst p < 9 \<and> snd p < 9"
  by (cases p) (auto simp: all_cells_def image_iff)

lemma in_row_cells: "p \<in> set (row_cells r) \<longleftrightarrow> fst p = r \<and> snd p < 9"
  by (cases p) (auto simp: row_cells_def)

lemma in_col_cells: "p \<in> set (col_cells c) \<longleftrightarrow> snd p = c \<and> fst p < 9"
  by (cases p) (auto simp: col_cells_def)

lemma in_box_cells:
  "p \<in> set (box_cells r0 c0) \<longleftrightarrow> r0 \<le> fst p \<and> fst p < r0 + 3 \<and> c0 \<le> snd p \<and> snd p < c0 + 3"
proof (cases p)
  case (Pair x y)
  have "(\<exists>i<3. x = r0 + i) \<longleftrightarrow> r0 \<le> x \<and> x < r0 + 3" by presburger
  moreover have "(\<exists>j<3. y = c0 + j) \<longleftrightarrow> c0 \<le> y \<and> y < c0 + 3" by presburger
  ultimately show ?thesis using Pair by (auto simp: box_cells_def image_iff Bex_def)
qed

lemma board9_row: "board9 b \<Longrightarrow> r < 9 \<Longrightarrow> length (b ! r) = 9"
  by (simp add: board9_def list_all_length)

lemma cell_board9: "board9 b \<Longrightarrow> r < 9 \<Longrightarrow> c < 9 \<Longrightarrow> cell b r c = Some (at b (r, c))"
  by (simp add: cell_def at_def board9_row) (simp add: board9_def)

lemma scan_for_board9:
  "board9 b \<Longrightarrow> \<forall>p \<in> set ps. fst p < 9 \<and> snd p < 9 \<Longrightarrow>
     scan_for b num ps = Some (\<exists>p \<in> set ps. at b p = Num num)"
  by (induction ps) (auto simp: cell_board9)

lemma div3_box: "(n div 3 * 3 \<le> x \<and> x < n div 3 * 3 + 3) \<longleftrightarrow> x div 3 = (n::nat) div 3"
  by presburger

lemma div3_box': "(n div 3 * 3 \<le> x \<and> x < n div 3 * 3 + 3 \<and> P) \<longleftrightarrow> (x div 3 = (n::nat) div 3 \<and> P)"
  using div3_box[of n x] by blast

lemma div3_lt9: "x div 3 = n div 3 \<Longrightarrow> n < 9 \<Longrightarrow> (x::nat) < 9"
  by presburger

lemma in_peers:
  assumes "r < 9" "c < 9"
  shows "p \<in> set (peers r c) \<longleftrightarrow> p \<in> set all_cells \<and> same_unit (r, c) p"
proof -
  obtain x y where p: "p = (x, y)" by (cases p)
  have "p \<in> set (peers r c) \<longleftrightarrow>
          (x = r \<and> y < 9) \<or> (y = c \<and> x < 9) \<or> (x div 3 = r div 3 \<and> y div 3 = c div 3)"
    unfolding p peers_def
    by (simp add: in_row_cells in_col_cells in_box_cells div3_box div3_box' del: One_nat_def)
  also have "\<dots> \<longleftrightarrow> (x < 9 \<and> y < 9) \<and> (r = x \<or> c = y \<or> (r div 3 = x div 3 \<and> c div 3 = y div 3))"
    using assms div3_lt9[of x r] div3_lt9[of y c] by auto
  also have "\<dots> \<longleftrightarrow> p \<in> set all_cells \<and> same_unit (r, c) p"
    unfolding p by (simp add: in_all_cells same_unit_def)
  finally show ?thesis .
qed

lemma isValid_board9:
  assumes "board9 b" "r < 9" "c < 9"
  shows "isValid b r c num = Some (\<forall>p \<in> set (peers r c). at b p \<noteq> Num num)"
proof -
  have r: "\<forall>p \<in> set (row_cells r). fst p < 9 \<and> snd p < 9" using assms by (simp add: in_row_cells)
  have c: "\<forall>p \<in> set (col_cells c). fst p < 9 \<and> snd p < 9" using assms by (simp add: in_col_cells)
  have "r div 3 * 3 + 3 \<le> 9" "c div 3 * 3 + 3 \<le> 9" using assms by presburger+
  then have x: "\<forall>p \<in> set (box_cells (r div 3 * 3) (c div 3 * 3)). fst p < 9 \<and> snd p < 9"
    by (auto simp: in_box_cells)
  show ?thesis
    unfolding isValid_def Let_def
    by (auto simp: scan_for_board9[OF assms(1) r] scan_for_board9[OF assms(1) c]
        scan_for_board9[OF assms(1) x] peers_def split: bool.splits)
qed

lemma find_null_board9:
  "board9 b \<Longrightarrow> \<forall>p \<in> set ps. fst p < 9 \<and> snd p < 9 \<Longrightarrow>
     (\<exists>p \<in> set ps. at b p = Null \<and> find_null b ps = Some (Some p))
     \<or> ((\<forall>p \<in> set ps. at b p \<noteq> Null) \<and> find_null b ps = Some None)"
  by (induction ps) (auto simp: cell_board9)

lemma find_null_cases:
  assumes "board9 b"
  obtains (filled) "full b" "find_null b all_cells = Some None"
  | (empty) row col where "row < 9" "col < 9" "at b (row, col) = Null"
      "find_null b all_cells = Some (Some (row, col))"
proof -
  have "\<forall>p \<in> set all_cells. fst p < 9 \<and> snd p < 9" by (simp add: in_all_cells)
  from find_null_board9[OF assms this] show ?thesis
  proof
    assume "\<exists>p \<in> set all_cells. at b p = Null \<and> find_null b all_cells = Some (Some p)"
    then obtain p where "p \<in> set all_cells" "at b p = Null" "find_null b all_cells = Some (Some p)"
      by blast
    then show ?thesis using empty[of "fst p" "snd p"] by (simp add: in_all_cells)
  next
    assume "(\<forall>p \<in> set all_cells. at b p \<noteq> Null) \<and> find_null b all_cells = Some None"
    then show ?thesis using filled by (simp add: full_def)
  qed
qed

lemma board9_place: "board9 b \<Longrightarrow> board9 (place b r c v)"
  by (cases "r < length b") (auto simp: board9_def place_def list_all_length nth_list_update)

lemma at_place:
  "board9 b \<Longrightarrow> r < 9 \<Longrightarrow> c < 9 \<Longrightarrow> fst p < 9 \<Longrightarrow> snd p < 9 \<Longrightarrow>
     at (place b r c v) p = (if p = (r, c) then v else at b p)"
  by (cases p) (auto simp: at_def place_def board9_def list_all_length nth_list_update)

lemma place_undo:
  "board9 b \<Longrightarrow> r < 9 \<Longrightarrow> c < 9 \<Longrightarrow> at b (r, c) = Null \<Longrightarrow>
     place (place b r c v) r c Null = b"
proof -
  assume a: "board9 b" "r < 9" "c < 9" "at b (r, c) = Null"
  then have "(b ! r)[c := Null] = b ! r"
    using list_update_id[of "b ! r" c] by (simp add: at_def)
  with a show ?thesis by (simp add: place_def board9_def)
qed

lemma box_cells_image:
  "set (box_cells r0 c0) = {(r0 + i, c0 + j) | i j. i < 3 \<and> j < 3}"
  by (auto simp: box_cells_def)

lemma peers_hit:
  assumes "r < 9" "c < 9"
  shows "(\<exists>p \<in> set (peers r c). at b p = Num v)
     \<longleftrightarrow> at b (r, c) = Num v \<or> occurs_elsewhere b r c v"
proof
  assume "\<exists>p \<in> set (peers r c). at b p = Num v"
  then obtain x y where p: "(x, y) \<in> set (peers r c)" "at b (x, y) = Num v" by auto
  show "at b (r, c) = Num v \<or> occurs_elsewhere b r c v"
  proof (cases "(x, y) = (r, c)")
    case True
    with p show ?thesis by simp
  next
    case False
    from p(1) consider "(x, y) \<in> set (row_cells r)" | "(x, y) \<in> set (col_cells c)"
      | "(x, y) \<in> set (box_cells (r div 3 * 3) (c div 3 * 3))"
      unfolding peers_def set_append by blast
    then have "occurs_elsewhere b r c v"
    proof cases
      case 1
      then have "y \<in> {0..<9}" "y \<noteq> c" "at b (r, y) = Num v"
        using False p(2) by (simp_all add: in_row_cells)
      then show ?thesis unfolding occurs_elsewhere_def by blast
    next
      case 2
      then have "x \<in> {0..<9}" "x \<noteq> r" "at b (x, c) = Num v"
        using False p(2) by (simp_all add: in_col_cells)
      then show ?thesis unfolding occurs_elsewhere_def by blast
    next
      case 3
      then obtain i j where ij: "i < 3" "j < 3" "(x, y) = (r div 3 * 3 + i, c div 3 * 3 + j)"
        unfolding box_cells_image by blast
      then have "i \<in> {0..<3}" "j \<in> {0..<3}"
        "(r div 3 * 3 + i, c div 3 * 3 + j) \<noteq> (r, c)"
        "at b (r div 3 * 3 + i, c div 3 * 3 + j) = Num v"
        using False p(2) by simp_all
      then show ?thesis unfolding occurs_elsewhere_def by blast
    qed
    then show ?thesis ..
  qed
next
  assume "at b (r, c) = Num v \<or> occurs_elsewhere b r c v"
  then show "\<exists>p \<in> set (peers r c). at b p = Num v"
  proof
    assume "at b (r, c) = Num v"
    moreover have "(r, c) \<in> set (peers r c)"
      using assms by (simp add: peers_def in_row_cells)
    ultimately show ?thesis by blast
  next
    assume "occurs_elsewhere b r c v"
    then consider x where "x \<in> {0..<9}" "at b (r, x) = Num v"
      | x where "x \<in> {0..<9}" "at b (x, c) = Num v"
      | i j where "i \<in> {0..<3}" "j \<in> {0..<3}" "at b (r div 3 * 3 + i, c div 3 * 3 + j) = Num v"
      unfolding occurs_elsewhere_def by blast
    then show ?thesis
    proof cases
      case 1
      then have "(r, x) \<in> set (peers r c)" by (simp add: peers_def in_row_cells)
      with 1 show ?thesis by blast
    next
      case 2
      then have "(x, c) \<in> set (peers r c)" by (simp add: peers_def in_col_cells)
      with 2 show ?thesis by blast
    next
      case 3
      then have "i < 3" "j < 3" by simp_all
      then have "(r div 3 * 3 + i, c div 3 * 3 + j) \<in> set (box_cells (r div 3 * 3) (c div 3 * 3))"
        unfolding box_cells_image by blast
      then have "(r div 3 * 3 + i, c div 3 * 3 + j) \<in> set (peers r c)" by (simp add: peers_def)
      with 3 show ?thesis by blast
    qed
  qed
qed

lemma board9_exampleBoard: "board9 exampleBoard"
  by (simp add: board9_def exampleBoard_def)

subsection \<open>The two functions, path by path\<close>

declare solveSudoku.simps [simp del] try_nums.simps [simp del]

lemma solve_induct [case_names solve cand]:
  assumes S: "\<And>b. (\<And>row col. find_null b all_cells = Some (Some (row, col)) \<Longrightarrow> Q b row col 1) \<Longrightarrow> P b"
    and T: "\<And>b row col num.
       (\<lbrakk>num \<le> 9; isValid b row col num = Some True\<rbrakk> \<Longrightarrow> P (place b row col (Num num))) \<Longrightarrow>
       (\<And>snaps. \<lbrakk>num \<le> 9; isValid b row col num = Some True;
          solveSudoku (place b row col (Num num)) = Some (False, snaps)\<rbrakk> \<Longrightarrow> Q b row col (num + 1)) \<Longrightarrow>
       (\<lbrakk>num \<le> 9; isValid b row col num = Some False\<rbrakk> \<Longrightarrow> Q b row col (num + 1)) \<Longrightarrow>
       Q b row col num"
  shows "P b" and "Q b row col num"
proof (induction b and b row col num rule: solveSudoku_try_nums.induct)
  case (1 b)
  show ?case by (rule S) (rule 1[OF _ refl refl], simp)
next
  case (2 b row col num)
  show ?case
  proof (rule T)
    assume "num \<le> 9" "isValid b row col num = Some True"
    then show "P (place b row col (Num num))" using 2(1)[OF _ _ refl refl] by simp
  next
    fix snaps
    assume "num \<le> 9" "isValid b row col num = Some True"
      "solveSudoku (place b row col (Num num)) = Some (False, snaps)"
    then show "Q b row col (num + 1)" using 2(2)[OF _ _ refl refl _ refl refl] by simp
  next
    assume "num \<le> 9" "isValid b row col num = Some False"
    then show "Q b row col (num + 1)" using 2(3)[OF _ _ refl] by simp
  qed
qed

text \<open>The equations of the two functions, one for each path through the source.\<close>

lemma solve_filled: "find_null b all_cells = Some None \<Longrightarrow> solveSudoku b = Some (True, [])"
  by (simp add: solveSudoku.simps)

lemma solve_empty:
  "find_null b all_cells = Some (Some (row, col)) \<Longrightarrow> solveSudoku b = try_nums b row col 1"
  by (simp add: solveSudoku.simps)

lemma try_done: "\<not> num \<le> 9 \<Longrightarrow> try_nums b row col num = Some (False, [])"
  by (subst try_nums.simps) simp

lemma try_skip:
  "num \<le> 9 \<Longrightarrow> isValid b row col num = Some False \<Longrightarrow>
     try_nums b row col num = try_nums b row col (num + 1)"
  by (subst try_nums.simps) simp

lemma try_success:
  "num \<le> 9 \<Longrightarrow> isValid b row col num = Some True \<Longrightarrow>
   solveSudoku (place b row col (Num num)) = Some (True, snaps) \<Longrightarrow>
     try_nums b row col num = Some (True, place b row col (Num num) # snaps)"
  by (subst try_nums.simps) simp

lemma try_backtrack:
  "num \<le> 9 \<Longrightarrow> isValid b row col num = Some True \<Longrightarrow>
   solveSudoku (place b row col (Num num)) = Some (False, snaps) \<Longrightarrow>
   try_nums b row col (num + 1) = Some (res, snaps') \<Longrightarrow>
     try_nums b row col num
       = Some (res, place b row col (Num num) # snaps
                    @ place (place b row col (Num num)) row col Null # snaps')"
  by (subst try_nums.simps) (simp add: Let_def)


lemma solve_total:
  "board9 b \<Longrightarrow> solveSudoku b \<noteq> None"
  "board9 b \<Longrightarrow> row < 9 \<Longrightarrow> col < 9 \<Longrightarrow> try_nums b row col num \<noteq> None"
proof (induction b and b row col num rule: solve_induct)
  case (solve b)
  from solve.prems show ?case
  proof (cases rule: find_null_cases)
    case filled
    then show ?thesis by (simp add: solve_filled)
  next
    case (empty row col)
    with solve.IH[of row col] solve.prems show ?thesis by (simp add: solve_empty)
  qed
next
  case (cand b row col num)
  note b9 = \<open>board9 b\<close> and rc = \<open>row < 9\<close> \<open>col < 9\<close>
  show ?case
  proof (cases "num \<le> 9")
    case False
    then show ?thesis by (simp add: try_done)
  next
    case le: True
    show ?thesis
    proof (cases "\<forall>p \<in> set (peers row col). at b p \<noteq> Num num")
      case False
      then have v: "isValid b row col num = Some False" by (simp add: isValid_board9[OF b9 rc])
      from cand.IH(3)[OF le v b9 rc] show ?thesis by (simp add: try_skip[OF le v])
    next
      case True
      then have v: "isValid b row col num = Some True" by (simp add: isValid_board9[OF b9 rc])
      from cand.IH(1)[OF le v board9_place[OF b9]]
      obtain res snaps where s: "solveSudoku (place b row col (Num num)) = Some (res, snaps)"
        by fastforce
      show ?thesis
      proof (cases res)
        case True
        with s show ?thesis by (simp add: try_success[OF le v])
      next
        case False
        with s have s': "solveSudoku (place b row col (Num num)) = Some (False, snaps)" by simp
        from cand.IH(2)[OF le v s' b9 rc] obtain res' snaps'
          where "try_nums b row col (num + 1) = Some (res', snaps')" by fastforce
        from try_backtrack[OF le v s' this] show ?thesis by simp
      qed
    qed
  qed
qed

text \<open>The four ways one round of the candidate loop can go on a 9x9 board.\<close>

lemma try_nums_cases [consumes 3, case_names exhausted reject success backtrack]:
  assumes "board9 b" "row < 9" "col < 9"
  obtains
    (exhausted) "\<not> num \<le> 9" "try_nums b row col num = Some (False, [])"
  | (reject) "num \<le> 9" "isValid b row col num = Some False"
      "try_nums b row col num = try_nums b row col (num + 1)"
  | (success) snaps where "num \<le> 9" "isValid b row col num = Some True"
      "solveSudoku (place b row col (Num num)) = Some (True, snaps)"
      "try_nums b row col num = Some (True, place b row col (Num num) # snaps)"
  | (backtrack) snaps res snaps' where "num \<le> 9" "isValid b row col num = Some True"
      "solveSudoku (place b row col (Num num)) = Some (False, snaps)"
      "try_nums b row col (num + 1) = Some (res, snaps')"
      "try_nums b row col num
         = Some (res, place b row col (Num num) # snaps
                      @ place (place b row col (Num num)) row col Null # snaps')"
proof (cases "num \<le> 9")
  case False
  then show ?thesis using exhausted by (simp add: try_done)
next
  case le: True
  from isValid_board9[OF assms] obtain v where v: "isValid b row col num = Some v" by blast
  show ?thesis
  proof (cases v)
    case False
    with v le show ?thesis using reject by (simp add: try_skip)
  next
    case True
    with v have v': "isValid b row col num = Some True" by simp
    from solve_total(1)[OF board9_place[OF assms(1)], of row col "Num num"]
    obtain r snaps where s: "solveSudoku (place b row col (Num num)) = Some (r, snaps)"
      by fastforce
    show ?thesis
    proof (cases r)
      case True
      with s le v' show ?thesis using success by (simp add: try_success)
    next
      case False
      with s have s': "solveSudoku (place b row col (Num num)) = Some (False, snaps)" by simp
      from solve_total(2)[OF assms, of "num + 1"] obtain res snaps'
        where t: "try_nums b row col (num + 1) = Some (res, snaps')" by fastforce
      from backtrack[OF le v' s' t] try_backtrack[OF le v' s' t] show ?thesis .
    qed
  qed
qed

lemma snaps_invariant:
  assumes step: "\<And>b row col num.
      \<lbrakk>board9 b; I b; row < 9; col < 9; at b (row, col) = Null; 1 \<le> num; num \<le> 9;
       isValid b row col num = Some True\<rbrakk> \<Longrightarrow> I (place b row col (Num num))"
  shows "board9 b \<Longrightarrow> I b \<Longrightarrow> solveSudoku b = Some (res, snaps) \<Longrightarrow>
           \<forall>s \<in> set snaps. board9 s \<and> I s"
    and "board9 b \<Longrightarrow> I b \<Longrightarrow> row < 9 \<Longrightarrow> col < 9 \<Longrightarrow> at b (row, col) = Null \<Longrightarrow> 1 \<le> num \<Longrightarrow>
         try_nums b row col num = Some (res, snaps) \<Longrightarrow>
           \<forall>s \<in> set snaps. board9 s \<and> I s"
proof (induction b and b row col num arbitrary: res snaps and res snaps rule: solve_induct)
  case (solve b)
  from \<open>board9 b\<close> show ?case
  proof (cases rule: find_null_cases)
    case filled
    with solve.prems show ?thesis by (simp add: solve_filled)
  next
    case (empty row col)
    with solve.prems have "try_nums b row col 1 = Some (res, snaps)" by (simp add: solve_empty)
    from solve.IH[OF empty(4) \<open>board9 b\<close> \<open>I b\<close> empty(1,2,3) _ this] show ?thesis by simp
  qed
next
  case (cand b row col num)
  note b9 = \<open>board9 b\<close> and rc = \<open>row < 9\<close> \<open>col < 9\<close>
  let ?nb = "place b row col (Num num)"
  from b9 rc show ?case
  proof (cases rule: try_nums_cases[where num = num])
    case exhausted
    with cand.prems show ?thesis by simp
  next
    case reject
    with cand.prems have "try_nums b row col (num + 1) = Some (res, snaps)" by simp
    from cand.IH(3)[OF reject(1,2) b9 \<open>I b\<close> rc \<open>at b (row, col) = Null\<close> _ this] \<open>1 \<le> num\<close>
    show ?thesis by simp
  next
    case (success snaps0)
    have nb: "board9 ?nb" "I ?nb"
      using board9_place[OF b9] step[OF b9 \<open>I b\<close> rc \<open>at b (row, col) = Null\<close> \<open>1 \<le> num\<close> success(1,2)]
      by simp_all
    from cand.IH(1)[OF success(1,2) nb success(3)] nb success(4) cand.prems(7)
    show ?thesis by auto
  next
    case (backtrack snaps0 res' snaps')
    have nb: "board9 ?nb" "I ?nb"
      using board9_place[OF b9] step[OF b9 \<open>I b\<close> rc \<open>at b (row, col) = Null\<close> \<open>1 \<le> num\<close> backtrack(1,2)]
      by simp_all
    have undo: "place ?nb row col Null = b"
      using place_undo[OF b9 rc \<open>at b (row, col) = Null\<close>] by simp
    have 1: "\<forall>s \<in> set snaps0. board9 s \<and> I s"
      using cand.IH(1)[OF backtrack(1,2) nb backtrack(3)] .
    have 2: "\<forall>s \<in> set snaps'. board9 s \<and> I s"
      using cand.IH(2)[OF backtrack(1,2,3) b9 \<open>I b\<close> rc \<open>at b (row, col) = Null\<close> _ backtrack(4)]
        \<open>1 \<le> num\<close> by simp
    from backtrack(5) cand.prems(7) have "snaps = ?nb # snaps0 @ b # snaps'"
      by (simp add: undo)
    with 1 2 nb b9 \<open>I b\<close> show ?thesis by auto
  qed
qed

lemma success_full:
  shows "board9 b \<Longrightarrow> solveSudoku b = Some (True, snaps) \<Longrightarrow> full (final_board b snaps)"
    and "board9 b \<Longrightarrow> row < 9 \<Longrightarrow> col < 9 \<Longrightarrow> try_nums b row col num = Some (True, snaps) \<Longrightarrow>
           snaps \<noteq> [] \<and> full (last snaps)"
proof (induction b and b row col num arbitrary: snaps and snaps rule: solve_induct)
  case (solve b)
  from \<open>board9 b\<close> show ?case
  proof (cases rule: find_null_cases)
    case filled
    with solve.prems show ?thesis by (simp add: solve_filled final_board_def)
  next
    case (empty row col)
    with solve.prems have "try_nums b row col 1 = Some (True, snaps)" by (simp add: solve_empty)
    from solve.IH[OF empty(4) \<open>board9 b\<close> empty(1,2) this] show ?thesis
      by (simp add: final_board_def)
  qed
next
  case (cand b row col num)
  note b9 = \<open>board9 b\<close> and rc = \<open>row < 9\<close> \<open>col < 9\<close>
  let ?nb = "place b row col (Num num)"
  from b9 rc show ?case
  proof (cases rule: try_nums_cases[where num = num])
    case exhausted
    with cand.prems show ?thesis by simp
  next
    case reject
    with cand.prems have "try_nums b row col (num + 1) = Some (True, snaps)" by simp
    from cand.IH(3)[OF reject(1,2) b9 rc this] show ?thesis .
  next
    case (success snaps0)
    from cand.IH(1)[OF success(1,2) board9_place[OF b9] success(3)]
    have "full (final_board ?nb snaps0)" .
    moreover from success(4) cand.prems(4) have "snaps = ?nb # snaps0" by simp
    ultimately show ?thesis by (simp add: final_board_def)
  next
    case (backtrack snaps0 res' snaps')
    from backtrack(5) cand.prems(4)
    have eq: "res' = True" "snaps = ?nb # snaps0 @ place ?nb row col Null # snaps'" by simp_all
    from cand.IH(2)[OF backtrack(1,2,3) b9 rc] backtrack(4) eq(1)
    have "snaps' \<noteq> [] \<and> full (last snaps')" by simp
    with eq(2) show ?thesis by simp
  qed
qed

subsection \<open>Units\<close>

lemma units_shape:
  "\<forall>u \<in> set units. length u = 9 \<and> distinct u \<and> set u \<subseteq> set all_cells
      \<and> (\<forall>p \<in> set u. \<forall>q \<in> set u. same_unit p q)"
  by code_simp

lemma row_in_units: "r < 9 \<Longrightarrow> row_cells r \<in> set units"
  by (simp add: units_def)

lemma col_in_units: "c < 9 \<Longrightarrow> col_cells c \<in> set units"
  by (simp add: units_def)

lemma box_in_units: "i < 3 \<Longrightarrow> j < 3 \<Longrightarrow> box_cells (i * 3) (j * 3) \<in> set units"
proof -
  assume "i < 3" "j < 3"
  then have "box_cells (i * 3) (j * 3)
      \<in> set (concat (map (\<lambda>i. map (\<lambda>j. box_cells (i * 3) (j * 3)) [0..<3]) [0..<3]))"
    by (auto simp del: upt_Suc intro!: bexI[of _ i] image_eqI[of _ _ j])
  then show ?thesis unfolding units_def by simp
qed

lemma common_unit:
  assumes "p \<in> set all_cells" "q \<in> set all_cells" "same_unit p q"
  shows "\<exists>u \<in> set units. p \<in> set u \<and> q \<in> set u"
proof -
  from assms(1,2) have r: "fst p < 9" "snd p < 9" "fst q < 9" "snd q < 9"
    by (simp_all add: in_all_cells)
  from assms(3) consider "fst p = fst q" | "snd p = snd q"
    | "fst p div 3 = fst q div 3" "snd p div 3 = snd q div 3"
    unfolding same_unit_def by blast
  then show ?thesis
  proof cases
    case 1
    with r have "p \<in> set (row_cells (fst p))" "q \<in> set (row_cells (fst p))"
      by (simp_all add: in_row_cells)
    with row_in_units[OF r(1)] show ?thesis by blast
  next
    case 2
    with r have "p \<in> set (col_cells (snd p))" "q \<in> set (col_cells (snd p))"
      by (simp_all add: in_col_cells)
    with col_in_units[OF r(2)] show ?thesis by blast
  next
    case 3
    have lt: "fst p div 3 < 3" "snd p div 3 < 3" using r by presburger+
    have "p \<in> set (box_cells (fst p div 3 * 3) (snd p div 3 * 3))"
      using div3_box[of "fst p" "fst p"] div3_box[of "snd p" "snd p"]
      by (simp add: in_box_cells)
    moreover have "q \<in> set (box_cells (fst p div 3 * 3) (snd p div 3 * 3))"
      using div3_box[of "fst p" "fst q"] div3_box[of "snd p" "snd q"] 3
      by (simp add: in_box_cells)
    ultimately show ?thesis using box_in_units[OF lt] by blast
  qed
qed

subsection \<open>A unit that holds each of 1 to 9 once\<close>

lemma card_digits: "card (Num ` {1..9}) = 9"
proof -
  have "inj_on Num {1..9::int}" by (simp add: inj_on_def)
  then show ?thesis by (simp add: card_image)
qed

lemma distinct_count_list: "distinct xs \<Longrightarrow> x \<in> set xs \<Longrightarrow> count_list xs x = 1"
  by (induction xs) (auto simp: count_list_0_iff)

lemma once_each_intro:
  assumes "length xs = 9" "distinct xs" "set xs \<subseteq> Num ` {1..9}"
  shows "\<forall>n \<in> {1..9}. count_list xs (Num n) = 1"
proof -
  have "card (set xs) = 9" using assms(1,2) by (simp add: distinct_card)
  then have "set xs = Num ` {1..9}"
    using card_subset_eq[of "Num ` {1..9}" "set xs"] assms(3) card_digits by simp
  then show ?thesis using distinct_count_list[OF assms(2)] by blast
qed

lemma once_each_elim:
  assumes "length xs = 9" "\<forall>n \<in> {1..9}. count_list xs (Num n) = 1"
  shows "distinct xs \<and> set xs = Num ` {1..9}"
proof -
  have sub: "Num ` {1..9} \<subseteq> set xs"
  proof
    fix v assume "v \<in> Num ` {1..9}"
    then obtain n where "n \<in> {1..9}" "v = Num n" by blast
    with assms(2) have "count_list xs v \<noteq> 0" by simp
    then show "v \<in> set xs" by (simp add: count_list_0_iff)
  qed
  then have "card (Num ` {1..9}) \<le> card (set xs)" by (simp add: card_mono)
  moreover have "card (set xs) \<le> length xs" by (rule card_length)
  ultimately have c: "card (set xs) = length xs" using assms(1) card_digits by simp
  then have "distinct xs" by (rule card_distinct)
  moreover have "set xs = Num ` {1..9}"
    using card_subset_eq[OF _ sub] c assms(1) card_digits by simp
  ultimately show ?thesis by simp
qed

lemma cells_ok_at:
  "board9 b \<Longrightarrow> cells_ok b \<Longrightarrow> p \<in> set all_cells \<Longrightarrow>
     at b p = Null \<or> (\<exists>n \<in> {1..9}. at b p = Num n)"
  by (simp add: cells_ok_def board9_def list_all_length at_def in_all_cells)

lemma solved_intro:
  assumes "board9 s" "cells_ok s" "full s" "no_dups s"
  shows "solved s"
  unfolding solved_def
proof (intro conjI ballI)
  show "board9 s" by fact
next
  fix u n assume u: "u \<in> set units" and n: "n \<in> {1..9::int}"
  from units_shape u have sh: "length u = 9" "distinct u" "set u \<subseteq> set all_cells"
    "\<forall>p \<in> set u. \<forall>q \<in> set u. same_unit p q" by blast+
  have "inj_on (at s) (set u)"
  proof (rule inj_onI)
    fix p q assume pq: "p \<in> set u" "q \<in> set u" "at s p = at s q"
    show "p = q"
    proof (rule ccontr)
      assume "p \<noteq> q"
      moreover have "p \<in> set all_cells" "q \<in> set all_cells" using pq sh(3) by blast+
      moreover have "same_unit p q" using pq sh(4) by blast
      moreover have "at s p \<noteq> Null" using \<open>full s\<close> \<open>p \<in> set all_cells\<close> by (simp add: full_def)
      ultimately have "at s p \<noteq> at s q" using \<open>no_dups s\<close> unfolding no_dups_def by blast
      with pq(3) show False by simp
    qed
  qed
  then have d: "distinct (map (at s) u)" using sh(2) by (simp add: distinct_map)
  have "set (map (at s) u) \<subseteq> Num ` {1..9}"
  proof
    fix v assume "v \<in> set (map (at s) u)"
    then obtain p where p: "p \<in> set u" "v = at s p" by auto
    then have pc: "p \<in> set all_cells" using sh(3) by blast
    from cells_ok_at[OF assms(1,2) pc] \<open>full s\<close> pc p(2) show "v \<in> Num ` {1..9}"
      by (auto simp: full_def)
  qed
  from once_each_intro[OF _ d this] sh(1) n
  show "count_list (map (at s) u) (Num n) = 1" by simp
qed

lemma solved_unit:
  assumes "solved s" "u \<in> set units"
  shows "distinct (map (at s) u)" "set (map (at s) u) = Num ` {1..9}"
proof -
  from units_shape assms(2) have "length (map (at s) u) = 9" by simp
  moreover from assms have "\<forall>n \<in> {1..9}. count_list (map (at s) u) (Num n) = 1"
    by (simp add: solved_def)
  ultimately show "distinct (map (at s) u)" "set (map (at s) u) = Num ` {1..9}"
    using once_each_elim by blast+
qed

lemma solved_digit:
  assumes "solved s" "p \<in> set all_cells"
  shows "\<exists>n \<in> {1..9}. at s p = Num n"
proof -
  from assms(2) have "fst p < 9" "p \<in> set (row_cells (fst p))"
    by (simp_all add: in_all_cells in_row_cells)
  then have "at s p \<in> set (map (at s) (row_cells (fst p)))" "row_cells (fst p) \<in> set units"
    by (simp_all add: row_in_units)
  with solved_unit(2)[OF assms(1)] show ?thesis by blast
qed

lemma solved_full: "solved s \<Longrightarrow> full s"
  using solved_digit unfolding full_def by fastforce

lemma solved_distinct:
  assumes "solved s" "p \<in> set all_cells" "q \<in> set all_cells" "same_unit p q" "p \<noteq> q"
  shows "at s p \<noteq> at s q"
proof -
  from common_unit[OF assms(2,3,4)] obtain u where u: "u \<in> set units" "p \<in> set u" "q \<in> set u"
    by blast
  from solved_unit(1)[OF assms(1) u(1)] have "inj_on (at s) (set u)" by (simp add: distinct_map)
  with u(2,3) assms(5) show ?thesis by (auto dest: inj_onD)
qed

lemma solved_no_dups: "solved s \<Longrightarrow> no_dups s"
  unfolding no_dups_def using solved_distinct by blast

lemma solved_cells_ok: "solved s \<Longrightarrow> cells_ok s"
proof -
  assume s: "solved s"
  then have b9: "board9 s" by (simp add: solved_def)
  have "\<And>r c. r < 9 \<Longrightarrow> c < 9 \<Longrightarrow> s ! r ! c = Null \<or> (\<exists>n \<in> {1..9}. s ! r ! c = Num n)"
    using solved_digit[OF s] by (fastforce simp: in_all_cells at_def)
  with b9 show ?thesis by (simp add: cells_ok_def board9_def list_all_length)
qed

subsection \<open>What a placement preserves\<close>

lemma same_unit_sym: "same_unit p q \<Longrightarrow> same_unit q p"
  by (auto simp: same_unit_def)

lemma isValid_True_peers:
  assumes "board9 b" "r < 9" "c < 9" "isValid b r c n = Some True"
    "q \<in> set all_cells" "same_unit (r, c) q"
  shows "at b q \<noteq> Num n"
  using isValid_board9[OF assms(1,2,3), of n] assms(4,5,6) in_peers[OF assms(2,3), of q] by simp

lemma isValid_False_peers:
  assumes "board9 b" "r < 9" "c < 9" "isValid b r c n = Some False"
  obtains q where "q \<in> set all_cells" "same_unit (r, c) q" "at b q = Num n"
  using isValid_board9[OF assms(1,2,3), of n] assms(4) in_peers[OF assms(2,3)] by auto

lemma no_dups_place:
  assumes b9: "board9 b" and nd: "no_dups b" and rc: "r < 9" "c < 9"
    and e: "at b (r, c) = Null" and v: "isValid b r c n = Some True"
  shows "no_dups (place b r c (Num n))"
  unfolding no_dups_def
proof (intro ballI impI)
  fix p q
  assume p: "p \<in> set all_cells" and q: "q \<in> set all_cells"
    and h: "p \<noteq> q \<and> same_unit p q \<and> at (place b r c (Num n)) p \<noteq> Null"
  have ap: "at (place b r c (Num n)) p = (if p = (r, c) then Num n else at b p)"
    using at_place[OF b9 rc] p by (simp add: in_all_cells)
  have aq: "at (place b r c (Num n)) q = (if q = (r, c) then Num n else at b q)"
    using at_place[OF b9 rc] q by (simp add: in_all_cells)
  show "at (place b r c (Num n)) p \<noteq> at (place b r c (Num n)) q"
  proof (cases "p = (r, c)")
    case True
    with h have "q \<noteq> (r, c)" "same_unit (r, c) q" by auto
    with isValid_True_peers[OF b9 rc v q] ap aq True show ?thesis by simp
  next
    case False
    show ?thesis
    proof (cases "q = (r, c)")
      case True
      with h have "same_unit (r, c) p" by (auto intro: same_unit_sym)
      with isValid_True_peers[OF b9 rc v p] ap aq True False show ?thesis by simp
    next
      case qf: False
      from h ap False have "at b p \<noteq> Null" by simp
      with nd p q h have "at b p \<noteq> at b q" unfolding no_dups_def by blast
      with ap aq False qf show ?thesis by simp
    qed
  qed
qed

lemma cells_ok_place:
  assumes "cells_ok b" "1 \<le> n" "n \<le> 9"
  shows "cells_ok (place b r c (Num n))"
proof (cases "r < length b \<and> c < length (b ! r)")
  case False
  with assms(1) show ?thesis by (simp add: place_out_of_range)
next
  case True
  have "n \<in> {1..9}" using assms(2,3) by simp
  then have "\<exists>m \<in> {1..9}. Num n = Num m" by blast
  with assms(1) True show ?thesis
    by (auto simp: cells_ok_def place_def list_all_length nth_list_update)
qed

lemma keeps_place:
  assumes "board9 b" "r < 9" "c < 9" "at b (r, c) = Null" "keeps b0 b"
  shows "keeps b0 (place b r c v)"
  unfolding keeps_def
proof (intro ballI impI)
  fix p assume p: "p \<in> set all_cells" and n: "at b0 p \<noteq> Null"
  with assms(5) have "at b p = at b0 p" by (simp add: keeps_def)
  with n assms(4) have "p \<noteq> (r, c)" by auto
  with at_place[OF assms(1,2,3)] p \<open>at b p = at b0 p\<close>
  show "at (place b r c v) p = at b0 p" by (simp add: in_all_cells)
qed

lemma keeps_refl: "keeps b b"
  by (simp add: keeps_def)

subsection \<open>The search finds a completion when there is one\<close>

lemma completion_place:
  assumes "board9 b" "r < 9" "c < 9" "completion b s" "at s (r, c) = Num k"
  shows "completion (place b r c (Num k)) s"
  unfolding completion_def
proof (intro conjI ballI impI)
  show "solved s" using assms(4) by (simp add: completion_def)
next
  fix p assume p: "p \<in> set all_cells" and n: "at (place b r c (Num k)) p \<noteq> Null"
  show "at s p = at (place b r c (Num k)) p"
  proof (cases "p = (r, c)")
    case True
    with at_place[OF assms(1,2,3), of p "Num k"] assms(2,3,5) show ?thesis by simp
  next
    case False
    with at_place[OF assms(1,2,3), of p "Num k"] p
    have "at (place b r c (Num k)) p = at b p" by (simp add: in_all_cells)
    with n assms(4) p show ?thesis by (simp add: completion_def)
  qed
qed

lemma solve_complete:
  shows "board9 b \<Longrightarrow> completion b s \<Longrightarrow> \<exists>snaps. solveSudoku b = Some (True, snaps)"
    and "board9 b \<Longrightarrow> row < 9 \<Longrightarrow> col < 9 \<Longrightarrow> at b (row, col) = Null \<Longrightarrow> completion b s \<Longrightarrow>
         at s (row, col) = Num k \<Longrightarrow> num \<le> k \<Longrightarrow>
           \<exists>snaps. try_nums b row col num = Some (True, snaps)"
proof (induction b and b row col num arbitrary: and k rule: solve_induct)
  case (solve b)
  from \<open>board9 b\<close> show ?case
  proof (cases rule: find_null_cases)
    case filled
    then show ?thesis by (simp add: solve_filled)
  next
    case (empty row col)
    from solve.prems(2) have "solved s" by (simp add: completion_def)
    from solved_digit[OF this, of "(row, col)"] empty(1,2)
    obtain k where k: "1 \<le> k" "at s (row, col) = Num k" by (auto simp: in_all_cells)
    from solve.IH[OF empty(4) \<open>board9 b\<close> empty(1,2,3) solve.prems(2) k(2) k(1)]
    show ?thesis by (simp add: solve_empty[OF empty(4)])
  qed
next
  case (cand b row col num)
  note b9 = \<open>board9 b\<close> and rc = \<open>row < 9\<close> \<open>col < 9\<close> and e = \<open>at b (row, col) = Null\<close>
    and cs = \<open>completion b s\<close> and sk = \<open>at s (row, col) = Num k\<close>
  from cs have sv: "solved s" by (simp add: completion_def)
  have rcin: "(row, col) \<in> set all_cells" using rc by (simp add: in_all_cells)
  from solved_digit[OF sv rcin] sk have k9: "k \<le> 9" by auto
  let ?nb = "place b row col (Num num)"
  from b9 rc show ?case
  proof (cases rule: try_nums_cases[where num = num])
    case exhausted
    with k9 \<open>num \<le> k\<close> show ?thesis by simp
  next
    case reject
    from isValid_False_peers[OF b9 rc reject(2)]
    obtain q where q: "q \<in> set all_cells" "same_unit (row, col) q" "at b q = Num num" by blast
    with e have ne: "(row, col) \<noteq> q" by auto
    from q cs have "at s q = Num num" by (simp add: completion_def)
    with solved_distinct[OF sv rcin q(1,2) ne] sk have "k \<noteq> num" by auto
    with \<open>num \<le> k\<close> have "num + 1 \<le> k" by simp
    from cand.IH(3)[OF reject(1,2) b9 rc e cs sk this] reject(3) show ?thesis by simp
  next
    case (success snaps0)
    then show ?thesis by simp
  next
    case (backtrack snaps0 res snaps')
    have "k \<noteq> num"
    proof
      assume "k = num"
      with completion_place[OF b9 rc cs sk] have "completion ?nb s" by simp
      from cand.IH(1)[OF backtrack(1,2) board9_place[OF b9] this] backtrack(3)
      show False by simp
    qed
    with \<open>num \<le> k\<close> have "num + 1 \<le> k" by simp
    from cand.IH(2)[OF backtrack(1,2,3) b9 rc e cs sk this] backtrack(4,5)
    show ?thesis by simp
  qed
qed

subsection \<open>The run as a whole\<close>

lemma final_board_cases: "final_board b snaps = b \<or> final_board b snaps \<in> set snaps"
  by (simp add: final_board_def)

lemma snaps_props:
  assumes "board9 b" "solveSudoku b = Some (res, snaps)" "s \<in> set snaps"
  shows "board9 s" "keeps b s" "cells_ok b \<Longrightarrow> cells_ok s" "no_dups b \<Longrightarrow> no_dups s"
proof -
  let ?I = "\<lambda>s. keeps b s \<and> (cells_ok b \<longrightarrow> cells_ok s) \<and> (no_dups b \<longrightarrow> no_dups s)"
  have step: "?I (place x row col (Num num))"
    if "board9 x" "?I x" "row < 9" "col < 9" "at x (row, col) = Null" "1 \<le> num" "num \<le> 9"
      "isValid x row col num = Some True" for x row col num
    using that keeps_place[of x row col b "Num num"] cells_ok_place[of x num row col]
      no_dups_place[of x row col num] by blast
  have "?I b" by (simp add: keeps_refl)
  from snaps_invariant(1)[of ?I, OF step assms(1) this assms(2)] assms(3)
  have "board9 s \<and> ?I s" by blast
  then show "board9 s" "keeps b s" "cells_ok b \<Longrightarrow> cells_ok s" "no_dups b \<Longrightarrow> no_dups s"
    by blast+
qed

lemma final_props:
  assumes "board9 b" "solveSudoku b = Some (res, snaps)"
  shows "board9 (final_board b snaps)" "keeps b (final_board b snaps)"
    "cells_ok b \<Longrightarrow> cells_ok (final_board b snaps)" "no_dups b \<Longrightarrow> no_dups (final_board b snaps)"
  using final_board_cases[of b snaps] snaps_props[OF assms] assms(1) keeps_refl[of b]
  by metis+

lemma final_solved:
  assumes "board9 b" "cells_ok b" "no_dups b" "solveSudoku b = Some (True, snaps)"
  shows "solved (final_board b snaps)"
  using solved_intro final_props[OF assms(1,4)] success_full(1)[OF assms(1,4)] assms(2,3)
  by blast

lemma empties_le_81: "board9 b \<Longrightarrow> empties b \<le> 81"
proof -
  assume b: "board9 b"
  have "count_list row Null \<le> 9" if "row \<in> set b" for row
    using that b count_le_length[of row Null] by (auto simp: board9_def list_all_iff)
  then have "sum_list (map (\<lambda>row. count_list row Null) b) \<le> sum_list (map (\<lambda>row. 9) b)"
    by (intro sum_list_mono) simp
  with b show ?thesis by (simp add: empties_def board9_def sum_list_triv)
qed

lemma calls_empties: "calls b b' \<Longrightarrow> Suc (empties b') = empties b"
proof -
  assume "calls b b'"
  then obtain row col num where f: "find_null b all_cells = Some (Some (row, col))"
    and b': "b' = place b row col (Num num)"
    by (auto simp: calls_def split: option.splits)
  from find_null_Some[OF f] empties_place[of row b col "Num num"] b'
  show ?thesis by simp
qed

lemma call_chain_depth: "call_chain (b # bs) \<Longrightarrow> length bs \<le> empties b"
proof (induction bs arbitrary: b)
  case Nil
  then show ?case by simp
next
  case (Cons b' bs)
  then have "calls b b'" "call_chain (b' # bs)" by simp_all
  with Cons.IH[of b'] calls_empties[of b b'] show ?case by simp
qed

subsection \<open>The checker\<close>

lemma add_conflict_set: "set (add_conflict p cs) = insert p (set cs)"
  by (auto simp: add_conflict_def)

lemma add_conflict_distinct: "distinct cs \<Longrightarrow> distinct (add_conflict p cs)"
  by (simp add: add_conflict_def)

lemma cell_at: "board9 b \<Longrightarrow> p \<in> set all_cells \<Longrightarrow> cell b (fst p) (snd p) = Some (at b p)"
  using cell_board9[of b "fst p" "snd p"] by (simp add: in_all_cells)

lemma mark_board9:
  assumes "board9 b" "set qs \<subseteq> set all_cells"
  shows "\<exists>cs'. mark b v qs cs = Some cs' \<and> set cs' = set cs \<union> {q \<in> set qs. at b q = v}
           \<and> (distinct cs \<longrightarrow> distinct cs')"
  using assms(2)
proof (induction qs arbitrary: cs)
  case Nil
  then show ?case by simp
next
  case (Cons q qs)
  then have q: "cell b (fst q) (snd q) = Some (at b q)" and qs: "set qs \<subseteq> set all_cells"
    using cell_at[OF assms(1)] by simp_all
  let ?cs = "if at b q = v then add_conflict q cs else cs"
  from Cons.IH[OF qs, of ?cs] obtain cs' where
    "mark b v qs ?cs = Some cs'" "set cs' = set ?cs \<union> {q \<in> set qs. at b q = v}"
    "distinct ?cs \<longrightarrow> distinct cs'" by blast
  then show ?case using q
    by (auto simp: add_conflict_set add_conflict_distinct)
qed

lemma hit_count:
  "\<not> falsy v \<Longrightarrow> hit v seen vs \<longleftrightarrow> (v \<in> seen \<and> v \<in> set vs) \<or> 2 \<le> count_list vs v"
proof (induction vs arbitrary: seen)
  case Nil
  then show ?case by simp
next
  case (Cons x xs)
  have "0 < count_list xs v \<longleftrightarrow> v \<in> set xs" using count_list_0_iff[of xs v] by auto
  then have c: "2 \<le> Suc (count_list xs v) \<longleftrightarrow> v \<in> set xs" by auto
  show ?case
    using Cons.IH[OF Cons.prems, of "if falsy x then seen else insert x seen"] Cons.prems c
    by (cases "x = v") auto
qed

lemma scan_unit_board9:
  assumes "board9 b" "set u \<subseteq> set all_cells" "set ps \<subseteq> set all_cells"
  shows "\<exists>cs'. scan_unit b u ps seen cs = Some cs'
           \<and> set cs' = set cs \<union> {q \<in> set u. \<not> falsy (at b q) \<and> hit (at b q) seen (map (at b) ps)}
           \<and> (distinct cs \<longrightarrow> distinct cs')"
  using assms(3)
proof (induction ps arbitrary: seen cs)
  case Nil
  then show ?case by simp
next
  case (Cons p ps)
  then have p: "cell b (fst p) (snd p) = Some (at b p)" and ps: "set ps \<subseteq> set all_cells"
    using cell_at[OF assms(1)] by simp_all
  show ?case
  proof (cases "falsy (at b p)")
    case True
    have scan: "scan_unit b u (p # ps) seen cs = scan_unit b u ps seen cs"
      using p True by simp
    have "hit v seen (map (at b) (p # ps)) \<longleftrightarrow> hit v seen (map (at b) ps)" if "\<not> falsy v" for v
      using that True by auto
    then have eq: "{q \<in> set u. \<not> falsy (at b q) \<and> hit (at b q) seen (map (at b) (p # ps))}
        = {q \<in> set u. \<not> falsy (at b q) \<and> hit (at b q) seen (map (at b) ps)}"
      by blast
    show ?thesis unfolding scan eq by (rule Cons.IH[OF ps])
  next
    case False
    from mark_board9[OF assms(1,2), of "at b p" cs] obtain m where
      m: "mark b (at b p) u cs = Some m" "set m = set cs \<union> {q \<in> set u. at b q = at b p}"
        "distinct cs \<longrightarrow> distinct m" by blast
    define cs1 where "cs1 = (if at b p \<in> seen then m else cs)"
    have scan: "scan_unit b u (p # ps) seen cs = scan_unit b u ps (insert (at b p) seen) cs1"
      using p False m(1) by (cases "at b p \<in> seen") (simp_all add: cs1_def)
    have s1: "set cs1 = set cs \<union> {q \<in> set u. at b p = at b q \<and> at b q \<in> seen}"
    proof (cases "at b p \<in> seen")
      case True
      then have "(at b p = at b q \<and> at b q \<in> seen) \<longleftrightarrow> at b q = at b p" for q by metis
      then show ?thesis using m(2) True by (simp add: cs1_def)
    next
      case False
      then have "\<not> (at b p = at b q \<and> at b q \<in> seen)" for q by metis
      then have e: "{q \<in> set u. at b p = at b q \<and> at b q \<in> seen} = {}" by blast
      show ?thesis unfolding e cs1_def using False by simp
    qed
    have d1: "distinct cs \<longrightarrow> distinct cs1" using m(3) by (simp add: cs1_def)
    from Cons.IH[OF ps, of "insert (at b p) seen" cs1] obtain cs' where
      r: "scan_unit b u ps (insert (at b p) seen) cs1 = Some cs'"
        "set cs' = set cs1 \<union> {q \<in> set u. \<not> falsy (at b q)
            \<and> hit (at b q) (insert (at b p) seen) (map (at b) ps)}"
        "distinct cs1 \<longrightarrow> distinct cs'" by blast
    have h: "hit v seen (map (at b) (p # ps))
        \<longleftrightarrow> (at b p = v \<and> v \<in> seen) \<or> hit v (insert (at b p) seen) (map (at b) ps)" for v
      using False by simp
    have nf: "\<not> falsy (at b q)" if "at b p = at b q" for q using that False by simp
    have "set cs' = set cs \<union> {q \<in> set u. at b p = at b q \<and> at b q \<in> seen}
        \<union> {q \<in> set u. \<not> falsy (at b q) \<and> hit (at b q) (insert (at b p) seen) (map (at b) ps)}"
      unfolding r(2) s1 ..
    also have "\<dots> = set cs \<union> {q \<in> set u. \<not> falsy (at b q)
          \<and> ((at b p = at b q \<and> at b q \<in> seen)
               \<or> hit (at b q) (insert (at b p) seen) (map (at b) ps))}"
      using nf by blast
    finally have "set cs' = set cs \<union> {q \<in> set u. \<not> falsy (at b q)
            \<and> hit (at b q) seen (map (at b) (p # ps))}"
      unfolding h .
    with r(1,3) d1 scan show ?thesis by simp
  qed
qed

lemma check_units_board9:
  assumes "board9 b" "\<forall>u \<in> set us. set u \<subseteq> set all_cells"
  shows "\<exists>cs'. check_units b us cs = Some cs'
           \<and> set cs' = set cs \<union> {q. \<exists>u \<in> set us. doubled b u q}
           \<and> (distinct cs \<longrightarrow> distinct cs')"
  using assms(2)
proof (induction us arbitrary: cs)
  case Nil
  then show ?case by simp
next
  case (Cons u us)
  then have u: "set u \<subseteq> set all_cells" and us: "\<forall>u \<in> set us. set u \<subseteq> set all_cells" by simp_all
  from scan_unit_board9[OF assms(1) u u, of "{}" cs] obtain c1 where
    c1: "scan_unit b u u {} cs = Some c1"
      "set c1 = set cs \<union> {q \<in> set u. \<not> falsy (at b q) \<and> hit (at b q) {} (map (at b) u)}"
      "distinct cs \<longrightarrow> distinct c1" by blast
  have "{q \<in> set u. \<not> falsy (at b q) \<and> hit (at b q) {} (map (at b) u)} = {q. doubled b u q}"
    using hit_count[of _ "{}" "map (at b) u"] by (auto simp: doubled_def)
  with c1(2) have c1': "set c1 = set cs \<union> {q. doubled b u q}" by simp
  from Cons.IH[OF us, of c1] obtain cs' where
    "check_units b us c1 = Some cs'" "set cs' = set c1 \<union> {q. \<exists>u \<in> set us. doubled b u q}"
    "distinct c1 \<longrightarrow> distinct cs'" by blast
  with c1(1,3) c1' show ?case by auto
qed

lemma row_filled_board9:
  "board9 b \<Longrightarrow> row < 9 \<Longrightarrow> \<forall>col \<in> set cols. col < 9 \<Longrightarrow>
     row_filled b row cols = Some (\<forall>col \<in> set cols. \<not> falsy (at b (row, col)))"
  by (induction cols) (auto simp: cell_board9)

lemma rows_filled_board9:
  "board9 b \<Longrightarrow> \<forall>row \<in> set rows. row < 9 \<Longrightarrow>
     rows_filled b rows acc
       = Some (acc \<and> (\<forall>row \<in> set rows. \<forall>col \<in> {0..<9}. \<not> falsy (at b (row, col))))"
proof (induction rows arbitrary: acc)
  case Nil
  then show ?case by simp
next
  case (Cons row rows)
  then have "row_filled b row [0..<9] = Some (\<forall>col \<in> set [0..<9]. \<not> falsy (at b (row, col)))"
    by (intro row_filled_board9) simp_all
  with Cons show ?case by auto
qed

lemma units_in_range: "\<forall>u \<in> set units. set u \<subseteq> set all_cells"
  using units_shape by blast

lemma checkSolution_board9:
  assumes "board9 b"
  shows "\<exists>cs. checkSolution b = Some (complete b \<and> cs = [], cs)
           \<and> set cs = {q. \<exists>u \<in> set units. doubled b u q} \<and> distinct cs"
proof -
  from check_units_board9[OF assms units_in_range, of "[]"] obtain cs where
    cs: "check_units b units [] = Some cs" "set cs = {q. \<exists>u \<in> set units. doubled b u q}"
      "distinct cs" by auto
  have "rows_filled b [0..<9] True
      = Some (True \<and> (\<forall>row \<in> set [0..<9]. \<forall>col \<in> {0..<9}. \<not> falsy (at b (row, col))))"
    by (rule rows_filled_board9[OF assms]) simp
  also have "(True \<and> (\<forall>row \<in> set [0..<9]. \<forall>col \<in> {0..<9}. \<not> falsy (at b (row, col)))) = complete b"
    unfolding complete_def by (auto simp: in_all_cells)
  finally have "rows_filled b [0..<9] True = Some (complete b)" .
  with cs show ?thesis by (simp add: checkSolution_def)
qed

lemma count_list_card:
  "distinct u \<Longrightarrow> count_list (map f u) v = card {p \<in> set u. f p = v}"
proof (induction u)
  case Nil
  then show ?case by simp
next
  case (Cons x xs)
  then have IH: "count_list (map f xs) v = card {p \<in> set xs. f p = v}" and x: "x \<notin> set xs"
    by simp_all
  show ?case
  proof (cases "f x = v")
    case True
    then have "{p \<in> set (x # xs). f p = v} = insert x {p \<in> set xs. f p = v}" by auto
    moreover have "x \<notin> {p \<in> set xs. f p = v}" using x by simp
    ultimately have "card {p \<in> set (x # xs). f p = v} = Suc (card {p \<in> set xs. f p = v})"
      by simp
    with True IH show ?thesis by simp
  next
    case False
    then have "{p \<in> set (x # xs). f p = v} = {p \<in> set xs. f p = v}" by auto
    with False IH show ?thesis by simp
  qed
qed

lemma twice_iff_other:
  assumes "distinct u" "q \<in> set u"
  shows "2 \<le> count_list (map f u) (f q) \<longleftrightarrow> (\<exists>p \<in> set u. p \<noteq> q \<and> f p = f q)"
proof -
  let ?S = "{p \<in> set u. f p = f q}"
  have fin: "finite ?S" and q: "q \<in> ?S" using assms(2) by simp_all
  have "2 \<le> card ?S \<longleftrightarrow> (\<exists>p \<in> ?S. p \<noteq> q)"
  proof
    assume c: "2 \<le> card ?S"
    show "\<exists>p \<in> ?S. p \<noteq> q"
    proof (rule ccontr)
      assume "\<not> (\<exists>p \<in> ?S. p \<noteq> q)"
      with q have "?S = {q}" by blast
      then have "card ?S = 1" by simp
      with c show False by simp
    qed
  next
    assume "\<exists>p \<in> ?S. p \<noteq> q"
    then obtain p where p: "p \<in> ?S" "p \<noteq> q" by blast
    with q have "{p, q} \<subseteq> ?S" by blast
    from card_mono[OF fin this] p(2) show "2 \<le> card ?S" by simp
  qed
  then show ?thesis unfolding count_list_card[OF assms(1)] by blast
qed

lemma doubled_iff:
  "(\<exists>u \<in> set units. doubled b u q) \<longleftrightarrow>
     q \<in> set all_cells \<and> \<not> falsy (at b q)
     \<and> (\<exists>p \<in> set all_cells. p \<noteq> q \<and> same_unit p q \<and> at b p = at b q)"
proof
  assume "\<exists>u \<in> set units. doubled b u q"
  then obtain u where u: "u \<in> set units" "q \<in> set u" "\<not> falsy (at b q)"
    "2 \<le> count_list (map (at b) u) (at b q)" unfolding doubled_def by blast
  from units_shape u(1) have sh: "distinct u" "set u \<subseteq> set all_cells"
    "\<forall>p \<in> set u. \<forall>q \<in> set u. same_unit p q" by blast+
  from u(4) twice_iff_other[OF sh(1) u(2), of "at b"] obtain p
    where p: "p \<in> set u" "p \<noteq> q" "at b p = at b q" by blast
  with sh(2,3) u(2,3)
  show "q \<in> set all_cells \<and> \<not> falsy (at b q)
     \<and> (\<exists>p \<in> set all_cells. p \<noteq> q \<and> same_unit p q \<and> at b p = at b q)" by blast
next
  assume a: "q \<in> set all_cells \<and> \<not> falsy (at b q)
     \<and> (\<exists>p \<in> set all_cells. p \<noteq> q \<and> same_unit p q \<and> at b p = at b q)"
  then obtain p where p: "p \<in> set all_cells" "p \<noteq> q" "same_unit p q" "at b p = at b q"
    by blast
  from common_unit[OF p(1) _ p(3)] a obtain u where u: "u \<in> set units" "p \<in> set u" "q \<in> set u"
    by blast
  from units_shape u(1) have "distinct u" by blast
  from twice_iff_other[OF this u(3), of "at b"] u(2) p(2,4)
  have "2 \<le> count_list (map (at b) u) (at b q)" by blast
  with u a show "\<exists>u \<in> set units. doubled b u q" unfolding doubled_def by blast
qed

lemma falsy_Null:
  "board9 b \<Longrightarrow> cells_ok b \<Longrightarrow> p \<in> set all_cells \<Longrightarrow> falsy (at b p) \<longleftrightarrow> at b p = Null"
  using cells_ok_at[of b p] by (auto simp: falsy_def)

lemma complete_full: "board9 b \<Longrightarrow> cells_ok b \<Longrightarrow> complete b \<longleftrightarrow> full b"
  by (simp add: complete_def full_def falsy_Null)

lemma no_dups_iff:
  assumes "board9 b" "cells_ok b"
  shows "no_dups b \<longleftrightarrow> {q. \<exists>u \<in> set units. doubled b u q} = {}"
proof
  assume nd: "no_dups b"
  show "{q. \<exists>u \<in> set units. doubled b u q} = {}"
  proof (rule ccontr)
    assume "{q. \<exists>u \<in> set units. doubled b u q} \<noteq> {}"
    then obtain q where "\<exists>u \<in> set units. doubled b u q" by blast
    then obtain p where q: "q \<in> set all_cells" "\<not> falsy (at b q)"
      and p: "p \<in> set all_cells" "p \<noteq> q" "same_unit p q" "at b p = at b q"
      unfolding doubled_iff by blast
    from q falsy_Null[OF assms q(1)] have "at b q \<noteq> Null" by simp
    with nd q(1) p same_unit_sym[OF p(3)] show False unfolding no_dups_def by metis
  qed
next
  assume e: "{q. \<exists>u \<in> set units. doubled b u q} = {}"
  show "no_dups b" unfolding no_dups_def
  proof (intro ballI impI)
    fix p q assume p: "p \<in> set all_cells" and q: "q \<in> set all_cells"
      and h: "p \<noteq> q \<and> same_unit p q \<and> at b p \<noteq> Null"
    show "at b p \<noteq> at b q"
    proof
      assume eq: "at b p = at b q"
      from h falsy_Null[OF assms p] have "\<not> falsy (at b p)" by simp
      moreover from h have "same_unit q p" "q \<noteq> p" by (auto intro: same_unit_sym)
      ultimately have "\<exists>u \<in> set units. doubled b u p"
        unfolding doubled_iff using p q eq by metis
      with e show False by blast
    qed
  qed
qed

declare solveSudoku_st.simps [simp del] try_nums_st.simps [simp del]

subsection \<open>The store\<close>

lemma extends_refl: "extends h h"
  by (simp add: extends_def)

lemma extends_trans: "extends h1 h2 \<Longrightarrow> extends h2 h3 \<Longrightarrow> extends h1 h3"
  by (auto simp: extends_def)

lemma extends_outer: "extends h h' \<Longrightarrow> a < length (outers h) \<Longrightarrow> outers h' ! a = outers h ! a"
  by (auto simp: extends_def nth_append)

lemma extends_row: "extends h h' \<Longrightarrow> r < length (inners h) \<Longrightarrow> inners h' ! r = inners h ! r"
  by (auto simp: extends_def nth_append)

lemma extends_length:
  "extends h h' \<Longrightarrow> length (outers h) \<le> length (outers h') \<and> length (inners h) \<le> length (inners h')"
  by (auto simp: extends_def)

lemma extends_board:
  assumes "extends h h'" "valid_board h a"
  shows "valid_board h' a" "board_of h' a = board_of h a"
proof -
  from assms(2) have a: "a < length (outers h)" and r: "\<forall>r \<in> set (outers h ! a). r < length (inners h)"
    by (simp_all add: valid_board_def list_all_iff)
  have o: "outers h' ! a = outers h ! a" by (rule extends_outer[OF assms(1) a])
  from a r o extends_length[OF assms(1)] show "valid_board h' a"
    by (auto simp: valid_board_def list_all_iff)
  from r o extends_row[OF assms(1)] show "board_of h' a = board_of h a"
    by (simp add: board_of_def)
qed

lemma private_row_extends:
  assumes "private_row h0 h nb row" "extends h h'"
  shows "private_row h0 h' nb row"
proof -
  from assms(1) have v: "valid_board h nb" by (simp add: private_row_def)
  then have "nb < length (outers h)" by (simp add: valid_board_def)
  from extends_outer[OF assms(2) this] extends_board(1)[OF assms(2) v] assms(1)
  show ?thesis by (simp add: private_row_def)
qed

lemma length_board_of: "length (board_of h a) = length (outers h ! a)"
  by (simp add: board_of_def)

lemma set_cell_private:
  assumes e: "extends h0 h" and p: "private_row h0 h nb row"
  shows "extends h0 (set_cell h nb row col v)"
    and "private_row h0 (set_cell h nb row col v) nb row"
    and "board_of (set_cell h nb row col v) nb = place (board_of h nb) row col v"
proof -
  let ?X = "outers h ! nb"
  let ?r = "?X ! row"
  let ?h = "set_cell h nb row col v"
  from p have v: "valid_board h nb" and row: "row < length ?X" and fresh: "length (inners h0) \<le> ?r"
    and old: "\<forall>i < length ?X. i \<noteq> row \<longrightarrow> ?X ! i < length (inners h0)"
    by (simp_all add: private_row_def)
  from v row have rl: "?r < length (inners h)" by (simp add: valid_board_def list_all_length)
  have o: "outers ?h = outers h" and r: "inners ?h = (inners h)[?r := (inners h ! ?r)[col := v]]"
    by (simp_all add: set_cell_def Let_def)
  from e obtain os rs where ex: "outers h = outers h0 @ os" "inners h = inners h0 @ rs"
    by (auto simp: extends_def)
  from ex(2) fresh have "inners ?h = inners h0 @ rs[?r - length (inners h0) := (inners h ! ?r)[col := v]]"
    unfolding r by (simp add: list_update_append)
  with ex(1) o show "extends h0 ?h" by (auto simp: extends_def)
  from p o r show "private_row h0 ?h nb row"
    by (simp add: private_row_def valid_board_def)
  show "board_of ?h nb = place (board_of h nb) row col v"
  proof (rule nth_equalityI)
    show "length (board_of ?h nb) = length (place (board_of h nb) row col v)"
      by (simp add: board_of_def place_def o)
  next
    fix i assume "i < length (board_of ?h nb)"
    then have i: "i < length ?X" by (simp add: board_of_def o)
    show "board_of ?h nb ! i = place (board_of h nb) row col v ! i"
    proof (cases "i = row")
      case True
      with i rl show ?thesis by (simp add: board_of_def place_def o r)
    next
      case False
      with old i fresh have "?X ! i \<noteq> ?r" by fastforce
      with i False show ?thesis by (simp add: board_of_def place_def o r)
    qed
  qed
qed

lemma copy_and_place_private:
  assumes v: "valid_board h a" and row: "row < length (outers h ! a)"
  shows "\<exists>nb h1. copy_and_place h a row col v = Some (nb, h1) \<and> extends h h1
            \<and> private_row h h1 nb row \<and> board_of h1 nb = place (board_of h a) row col v"
proof -
  let ?nb = "length (outers h)"
  let ?nr = "length (inners h)"
  let ?X = "(outers h ! a)[row := ?nr]"
  define h3 where "h3 = h\<lparr>inners := inners h @ [inners h ! (outers h ! a ! row)], outers := outers h @ [?X]\<rparr>"
  from v have a: "a < length (outers h)" and rs: "\<forall>i < length (outers h ! a). outers h ! a ! i < ?nr"
    by (simp_all add: valid_board_def list_all_length)
  have cp: "copy_and_place h a row col v = Some (?nb, set_cell h3 ?nb row col v)"
    using row by (simp add: copy_and_place_def copy_outer_def copy_row_def set_outer_def h3_def)
  have e3: "extends h h3" by (simp add: extends_def h3_def)
  have o3: "outers h3 ! ?nb = ?X" and r3: "inners h3 = inners h @ [inners h ! (outers h ! a ! row)]"
    by (simp_all add: h3_def)
  have v3: "valid_board h3 ?nb"
    unfolding valid_board_def list_all_length o3
    using rs row by (auto simp: h3_def nth_list_update less_Suc_eq)
  have p3: "private_row h h3 ?nb row"
    unfolding private_row_def o3 using v3 row rs by (simp add: nth_list_update)
  have b3: "board_of h3 ?nb = board_of h a"
  proof (rule nth_equalityI)
    show "length (board_of h3 ?nb) = length (board_of h a)" by (simp add: board_of_def o3)
  next
    fix i assume "i < length (board_of h3 ?nb)"
    then have i: "i < length (outers h ! a)" by (simp add: board_of_def o3)
    with rs row show "board_of h3 ?nb ! i = board_of h a ! i"
      by (cases "i = row") (simp_all add: board_of_def o3 r3 nth_append nth_list_update)
  qed
  from set_cell_private[OF e3 p3, of col v] cp b3 show ?thesis by simp
qed

lemma show_board_extends:
  assumes "valid_board h nb"
  shows "\<exists>h'. show_board h nb = (board_of h nb, h') \<and> extends h h'"
proof -
  let ?h = "h\<lparr>outers := outers h @ [outers h ! nb]\<rparr>"
  have "board_of ?h (length (outers h)) = board_of h nb" by (simp add: board_of_def)
  then have "show_board h nb = (board_of h nb, ?h)" by (simp add: show_board_def copy_outer_def)
  moreover have "extends h ?h" by (simp add: extends_def)
  ultimately show ?thesis by blast
qed

lemma isValid_Some_row: "isValid b row col num = Some v \<Longrightarrow> row < length b"
  by (auto simp: isValid_def row_cells_def cell_def upt_rec[of 0 9]
      split: option.splits bool.splits if_splits)

subsection \<open>The solver on the store\<close>

lemma st_induct [case_names zero solve cand]:
  assumes Z: "\<And>h a. P 0 h a"
    and S: "\<And>k h a.
       (\<And>row col. find_null (board_of h a) all_cells = Some (Some (row, col)) \<Longrightarrow> Q k h a row col 1)
       \<Longrightarrow> P (Suc k) h a"
    and T: "\<And>k h a row col num.
       (\<And>nb h1 snap h2. \<lbrakk>num \<le> 9; isValid (board_of h a) row col num = Some True;
          copy_and_place h a row col (Num num) = Some (nb, h1); show_board h1 nb = (snap, h2)\<rbrakk>
          \<Longrightarrow> P k h2 nb) \<Longrightarrow>
       (\<And>nb h1 snap h2 snaps h3 snap' h4. \<lbrakk>num \<le> 9; isValid (board_of h a) row col num = Some True;
          copy_and_place h a row col (Num num) = Some (nb, h1); show_board h1 nb = (snap, h2);
          solveSudoku_st k h2 nb = Some (False, snaps, h3);
          show_board (set_cell h3 nb row col Null) nb = (snap', h4)\<rbrakk>
          \<Longrightarrow> Q k h4 a row col (num + 1)) \<Longrightarrow>
       (\<lbrakk>num \<le> 9; isValid (board_of h a) row col num = Some False\<rbrakk> \<Longrightarrow> Q k h a row col (num + 1))
       \<Longrightarrow> Q k h a row col num"
  shows "P k h a" and "Q k h a row col num"
proof (induction k h a and k h a row col num rule: solveSudoku_st_try_nums_st.induct)
  case (1 h board)
  show ?case by (rule Z)
next
  case (2 fuel h board)
  show ?case by (rule S) (rule 2[OF _ refl refl], simp)
next
  case (3 fuel h board row col num)
  show ?case
  proof (rule T)
    fix nb h1 snap h2
    assume a: "num \<le> 9" "isValid (board_of h board) row col num = Some True"
      "copy_and_place h board row col (Num num) = Some (nb, h1)" "show_board h1 nb = (snap, h2)"
    show "P fuel h2 nb" by (rule 3(1)[OF a(1,2) refl a(3) refl a(4)[symmetric]])
  next
    fix nb h1 snap h2 snaps h3 snap' h4
    assume a: "num \<le> 9" "isValid (board_of h board) row col num = Some True"
      "copy_and_place h board row col (Num num) = Some (nb, h1)" "show_board h1 nb = (snap, h2)"
      "solveSudoku_st fuel h2 nb = Some (False, snaps, h3)"
      "show_board (set_cell h3 nb row col Null) nb = (snap', h4)"
    show "Q fuel h4 board row col (num + 1)"
      by (rule 3(2)[OF a(1,2) refl a(3) refl a(4)[symmetric] a(5) refl refl refl a(6)[symmetric]])
  next
    assume "num \<le> 9" "isValid (board_of h board) row col num = Some False"
    then show "Q fuel h board row col (num + 1)" using 3(3)[OF _ _ refl] by simp
  qed
qed

lemma st_filled:
  "find_null (board_of h a) all_cells = Some None \<Longrightarrow> solveSudoku_st (Suc k) h a = Some (True, [], h)"
  by (simp add: solveSudoku_st.simps)

lemma st_empty:
  "find_null (board_of h a) all_cells = Some (Some (row, col)) \<Longrightarrow>
     solveSudoku_st (Suc k) h a = try_nums_st k h a row col 1"
  by (simp add: solveSudoku_st.simps)

lemma st_thrown:
  "find_null (board_of h a) all_cells = None \<Longrightarrow> solveSudoku_st (Suc k) h a = None"
  by (simp add: solveSudoku_st.simps)

lemma try_st_done: "\<not> num \<le> 9 \<Longrightarrow> try_nums_st k h a row col num = Some (False, [], h)"
  by (subst try_nums_st.simps) simp

lemma try_st_thrown:
  "num \<le> 9 \<Longrightarrow> isValid (board_of h a) row col num = None \<Longrightarrow> try_nums_st k h a row col num = None"
  by (subst try_nums_st.simps) simp

lemma try_st_skip:
  "num \<le> 9 \<Longrightarrow> isValid (board_of h a) row col num = Some False \<Longrightarrow>
     try_nums_st k h a row col num = try_nums_st k h a row col (num + 1)"
  by (subst try_nums_st.simps) simp

lemma try_st_place:
  "num \<le> 9 \<Longrightarrow> isValid (board_of h a) row col num = Some True \<Longrightarrow>
   copy_and_place h a row col (Num num) = Some (nb, h1) \<Longrightarrow> show_board h1 nb = (snap, h2) \<Longrightarrow>
     try_nums_st k h a row col num =
       (case solveSudoku_st k h2 nb of
          None \<Rightarrow> None
        | Some (True, snaps, h3) \<Rightarrow> Some (True, snap # snaps, h3)
        | Some (False, snaps, h3) \<Rightarrow>
            (case show_board (set_cell h3 nb row col Null) nb of
               (snap', h4) \<Rightarrow>
                 (case try_nums_st k h4 a row col (num + 1) of
                    None \<Rightarrow> None
                  | Some (res, snaps', h5) \<Rightarrow> Some (res, snap # snaps @ snap' # snaps', h5))))"
  by (subst try_nums_st.simps) simp

lemma place_step:
  assumes "valid_board h a" "isValid (board_of h a) row col num = Some True"
  obtains nb h1 h2 where "copy_and_place h a row col (Num num) = Some (nb, h1)"
    "show_board h1 nb = (place (board_of h a) row col (Num num), h2)"
    "extends h h2" "private_row h h2 nb row" "valid_board h2 nb"
    "board_of h2 nb = place (board_of h a) row col (Num num)"
proof -
  from isValid_Some_row[OF assms(2)] have "row < length (outers h ! a)"
    by (simp add: length_board_of)
  from copy_and_place_private[OF assms(1) this, of col "Num num"] obtain nb h1 where
    c: "copy_and_place h a row col (Num num) = Some (nb, h1)" "extends h h1"
      "private_row h h1 nb row" "board_of h1 nb = place (board_of h a) row col (Num num)"
    by blast
  from c(3) have v1: "valid_board h1 nb" by (simp add: private_row_def)
  from show_board_extends[OF v1] c(4) obtain h2 where
    s: "show_board h1 nb = (place (board_of h a) row col (Num num), h2)" "extends h1 h2"
    by auto
  from private_row_extends[OF c(3) s(2)] have p2: "private_row h h2 nb row" .
  from extends_board[OF s(2) v1] c(4)
  have "valid_board h2 nb" "board_of h2 nb = place (board_of h a) row col (Num num)" by simp_all
  with that[OF c(1) s(1) extends_trans[OF c(2) s(2)] p2] show ?thesis by blast
qed

lemma remove_step:
  assumes "extends h h3" "private_row h h3 nb row" "valid_board h a"
  obtains h4 where
    "show_board (set_cell h3 nb row col Null) nb = (place (board_of h3 nb) row col Null, h4)"
    "extends h h4" "valid_board h4 a" "board_of h4 a = board_of h a"
proof -
  let ?h = "set_cell h3 nb row col Null"
  note sc = set_cell_private[OF assms(1,2), of col Null]
  from sc(2) have "valid_board ?h nb" by (simp add: private_row_def)
  from show_board_extends[OF this] sc(3) obtain h4 where
    s: "show_board ?h nb = (place (board_of h3 nb) row col Null, h4)" "extends ?h h4" by auto
  have e: "extends h h4" by (rule extends_trans[OF sc(1) s(2)])
  from that[OF s(1) e] extends_board[OF e assms(3)] show ?thesis by blast
qed

lemma st_refines:
  shows "valid_board h a \<Longrightarrow> solveSudoku_st k h a = Some (res, snaps, h') \<Longrightarrow>
           solveSudoku (board_of h a) = Some (res, snaps) \<and> extends h h'"
    and "valid_board h a \<Longrightarrow> try_nums_st k h a row col num = Some (res, snaps, h') \<Longrightarrow>
           try_nums (board_of h a) row col num = Some (res, snaps) \<and> extends h h'"
proof (induction k h a and k h a row col num arbitrary: res snaps h' and res snaps h'
    rule: st_induct)
  case (zero h a)
  then show ?case by (simp add: solveSudoku_st.simps)
next
  case (solve k h a)
  show ?case
  proof (cases "find_null (board_of h a) all_cells")
    case None
    with solve.prems show ?thesis by (simp add: st_thrown)
  next
    case (Some f)
    show ?thesis
    proof (cases f)
      case None
      with Some solve.prems show ?thesis by (simp add: st_filled solve_filled extends_refl)
    next
      case (Some p)
      obtain row col where p: "p = (row, col)" by (cases p)
      with Some \<open>find_null (board_of h a) all_cells = Some f\<close>
      have f: "find_null (board_of h a) all_cells = Some (Some (row, col))" by simp
      with solve.prems have "try_nums_st k h a row col 1 = Some (res, snaps, h')"
        by (simp add: st_empty)
      from solve.IH[OF f solve.prems(1) this] show ?thesis by (simp add: solve_empty[OF f])
    qed
  qed
next
  case (cand k h a row col num)
  let ?b = "board_of h a"
  let ?nbv = "place ?b row col (Num num)"
  note v = \<open>valid_board h a\<close> and r = \<open>try_nums_st k h a row col num = Some (res, snaps, h')\<close>
  show ?case
  proof (cases "num \<le> 9")
    case False
    with r show ?thesis by (simp add: try_st_done try_done extends_refl)
  next
    case le: True
    show ?thesis
    proof (cases "isValid ?b row col num")
      case None
      with r le show ?thesis by (simp add: try_st_thrown)
    next
      case (Some ok)
      show ?thesis
      proof (cases ok)
        case False
        with Some have iv: "isValid ?b row col num = Some False" by simp
        with r le have "try_nums_st k h a row col (num + 1) = Some (res, snaps, h')"
          by (simp add: try_st_skip)
        from cand.IH(3)[OF le iv v this] show ?thesis by (simp add: try_skip[OF le iv])
      next
        case True
        with Some have iv: "isValid ?b row col num = Some True" by simp
        from place_step[OF v iv] obtain nb h1 h2 where
          st: "copy_and_place h a row col (Num num) = Some (nb, h1)"
            "show_board h1 nb = (?nbv, h2)" "extends h h2" "private_row h h2 nb row"
            "valid_board h2 nb" "board_of h2 nb = ?nbv" by blast
        note unf = try_st_place[OF le iv st(1,2), of k]
        show ?thesis
        proof (cases "solveSudoku_st k h2 nb")
          case None
          with r unf show ?thesis by simp
        next
          case (Some t)
          obtain ok' snaps0 h3 where t: "t = (ok', snaps0, h3)" by (cases t)
          with Some have s: "solveSudoku_st k h2 nb = Some (ok', snaps0, h3)" by simp
          from cand.IH(1)[OF le iv st(1,2,5) s] st(6)
          have ps: "solveSudoku ?nbv = Some (ok', snaps0)" and e23: "extends h2 h3" by simp_all
          have e3: "extends h h3" by (rule extends_trans[OF st(3) e23])
          show ?thesis
          proof (cases ok')
            case True
            with r unf s have "res = True" "snaps = ?nbv # snaps0" "h' = h3" by simp_all
            with ps True e3 show ?thesis by (simp add: try_success[OF le iv])
          next
            case False
            with s have s': "solveSudoku_st k h2 nb = Some (False, snaps0, h3)" by simp
            from ps False have ps': "solveSudoku ?nbv = Some (False, snaps0)" by simp
            from remove_step[OF e3 private_row_extends[OF st(4) e23] v, of col] obtain h4 where
              rm: "show_board (set_cell h3 nb row col Null) nb
                     = (place (board_of h3 nb) row col Null, h4)"
                "extends h h4" "valid_board h4 a" "board_of h4 a = ?b" by blast
            from extends_board(2)[OF e23 st(5)] st(6) have b3: "board_of h3 nb = ?nbv" by simp
            show ?thesis
            proof (cases "try_nums_st k h4 a row col (num + 1)")
              case None
              with r unf s' rm(1) show ?thesis by simp
            next
              case (Some t')
              obtain res' snaps' h5 where "t' = (res', snaps', h5)" by (cases t')
              with Some have t': "try_nums_st k h4 a row col (num + 1) = Some (res', snaps', h5)"
                by simp
              from cand.IH(2)[OF le iv st(1,2) s' rm(1,3) t'] rm(4)
              have pt: "try_nums ?b row col (num + 1) = Some (res', snaps')" and e45: "extends h4 h5"
                by simp_all
              from r unf s' rm(1) t' b3
              have "res = res'" "snaps = ?nbv # snaps0 @ place ?nbv row col Null # snaps'" "h' = h5"
                by simp_all
              with try_backtrack[OF le iv ps' pt] extends_trans[OF rm(2) e45]
              show ?thesis by simp
            qed
          qed
        qed
      qed
    qed
  qed
qed

lemma empties_place_Null:
  assumes "board9 b" "row < 9" "col < 9" "at b (row, col) = Null"
  shows "Suc (empties (place b row col (Num num))) = empties b"
proof -
  from assms have "row < length b" "col < length (b ! row)" "b ! row ! col = Null"
    by (simp_all add: board9_def list_all_length at_def)
  from empties_place[OF this(1,2), of "Num num"] this(3) show ?thesis by simp
qed

lemma st_total:
  shows "valid_board h a \<Longrightarrow> board9 (board_of h a) \<Longrightarrow> empties (board_of h a) < k \<Longrightarrow>
           solveSudoku_st k h a \<noteq> None"
    and "valid_board h a \<Longrightarrow> board9 (board_of h a) \<Longrightarrow> row < 9 \<Longrightarrow> col < 9 \<Longrightarrow>
         at (board_of h a) (row, col) = Null \<Longrightarrow> empties (board_of h a) \<le> k \<Longrightarrow>
           try_nums_st k h a row col num \<noteq> None"
proof (induction k h a and k h a row col num rule: st_induct)
  case (zero h a)
  then show ?case by simp
next
  case (solve k h a)
  from \<open>board9 (board_of h a)\<close> show ?case
  proof (cases rule: find_null_cases)
    case filled
    then show ?thesis by (simp add: st_filled)
  next
    case (empty row col)
    from solve.IH[OF empty(4) solve.prems(1,2) empty(1,2,3)] solve.prems(3)
    show ?thesis by (simp add: st_empty[OF empty(4)])
  qed
next
  case (cand k h a row col num)
  let ?b = "board_of h a"
  let ?nbv = "place ?b row col (Num num)"
  note v = \<open>valid_board h a\<close> and b9 = \<open>board9 ?b\<close> and rc = \<open>row < 9\<close> \<open>col < 9\<close>
    and e = \<open>at ?b (row, col) = Null\<close> and k = \<open>empties ?b \<le> k\<close>
  show ?case
  proof (cases "num \<le> 9")
    case False
    then show ?thesis by (simp add: try_st_done)
  next
    case le: True
    from isValid_board9[OF b9 rc] obtain ok where ok: "isValid ?b row col num = Some ok" by blast
    show ?thesis
    proof (cases ok)
      case False
      with ok have iv: "isValid ?b row col num = Some False" by simp
      from cand.IH(3)[OF le iv v b9 rc e k] show ?thesis by (simp add: try_st_skip[OF le iv])
    next
      case True
      with ok have iv: "isValid ?b row col num = Some True" by simp
      from place_step[OF v iv] obtain nb h1 h2 where
        st: "copy_and_place h a row col (Num num) = Some (nb, h1)"
          "show_board h1 nb = (?nbv, h2)" "extends h h2" "private_row h h2 nb row"
          "valid_board h2 nb" "board_of h2 nb = ?nbv" by blast
      note unf = try_st_place[OF le iv st(1,2), of k]
      from empties_place_Null[OF b9 rc e, of num] k have "empties ?nbv < k" by simp
      with cand.IH(1)[OF le iv st(1,2,5)] board9_place[OF b9, of row col "Num num"] st(6)
      have "solveSudoku_st k h2 nb \<noteq> None" by simp
      then obtain ok' snaps0 h3 where s: "solveSudoku_st k h2 nb = Some (ok', snaps0, h3)"
        by fastforce
      show ?thesis
      proof (cases ok')
        case True
        with unf s show ?thesis by simp
      next
        case False
        with s have s': "solveSudoku_st k h2 nb = Some (False, snaps0, h3)" by simp
        from st_refines(1)[OF st(5) s'] have e23: "extends h2 h3" by simp
        from remove_step[OF extends_trans[OF st(3) e23] private_row_extends[OF st(4) e23] v, of col]
        obtain h4 where
          rm: "show_board (set_cell h3 nb row col Null) nb
                 = (place (board_of h3 nb) row col Null, h4)"
            "extends h h4" "valid_board h4 a" "board_of h4 a = ?b" by blast
        from cand.IH(2)[OF le iv st(1,2) s' rm(1,3)] rm(4) b9 rc e k
        have "try_nums_st k h4 a row col (num + 1) \<noteq> None" by simp
        then obtain t where "try_nums_st k h4 a row col (num + 1) = Some t" by blast
        with unf s' rm(1) show ?thesis by (cases t) simp
      qed
    qed
  qed
qed

lemma store_of_valid: "valid_board (store_of b) 0"
  by (simp add: store_of_def valid_board_def list_all_iff)

lemma store_of_board: "board_of (store_of b) 0 = b"
  by (simp add: store_of_def board_of_def map_nth)

subsection \<open>Where the filled board is after a successful run\<close>

lemma success_on_empty:
  assumes "board9 b" "\<not> full b" "solveSudoku b = Some (True, snaps)"
  shows "snaps \<noteq> [] \<and> full (last snaps)"
  using assms(1)
proof (cases rule: find_null_cases)
  case filled
  with assms(2) show ?thesis by simp
next
  case (empty row col)
  with assms(3) have "try_nums b row col 1 = Some (True, snaps)" by (simp add: solve_empty)
  from success_full(2)[OF assms(1) empty(1,2) this] show ?thesis .
qed

lemma full_returns_at_once:
  assumes "board9 b" "full b"
  shows "solveSudoku b = Some (True, [])"
  using assms(1)
proof (cases rule: find_null_cases)
  case filled
  then show ?thesis by (simp add: solve_filled)
next
  case (empty row col)
  with assms(2) show ?thesis by (auto simp: full_def in_all_cells)
qed

section \<open>The claims\<close>

text \<open>
  C1. For every 9x9 board of the data model (each cell empty or 1 to 9) whose filled
  cells hold no value twice in a row, a column or a box, \<^verbatim>\<open>solveSudoku\<close> returns, and it
  returns true if and only if the board has a valid completion: a board that keeps the
  filled cells and has each of 1 to 9 exactly once in every row, column and box.
\<close>

theorem solve_true_iff_completion:
  assumes "board9 b" "cells_ok b" "no_dups b"
  shows "\<exists>res snaps. solveSudoku b = Some (res, snaps) \<and> (res \<longleftrightarrow> (\<exists>s. completion b s))"
proof -
  from solve_total(1)[OF assms(1)] obtain res snaps where r: "solveSudoku b = Some (res, snaps)"
    by fastforce
  have "res \<longleftrightarrow> (\<exists>s. completion b s)"
  proof
    assume res
    with r have r': "solveSudoku b = Some (True, snaps)" by simp
    from final_solved[OF assms r'] final_props(2)[OF assms(1) r']
    have "completion b (final_board b snaps)" by (simp add: completion_def keeps_def)
    then show "\<exists>s. completion b s" ..
  next
    assume "\<exists>s. completion b s"
    then obtain s where "completion b s" ..
    from solve_complete(1)[OF assms(1) this] r show res by simp
  qed
  with r show ?thesis by blast
qed

theorem solve_true_iff_completion_witness:
  "board9 threeBlanks \<and> cells_ok threeBlanks \<and> no_dups threeBlanks
   \<and> solveSudoku threeBlanks
        = Some (True, [place threeBlanks 0 0 (Num 3), threeBlanks, place threeBlanks 0 0 (Num 5),
                       place (place threeBlanks 0 0 (Num 5)) 0 1 (Num 3), solvedGrid])
   \<and> (\<exists>s. completion threeBlanks s)
   \<and> board9 deadEnd \<and> cells_ok deadEnd \<and> no_dups deadEnd
   \<and> solveSudoku deadEnd = Some (False, [])
   \<and> \<not> (\<exists>s. completion deadEnd s)"
proof -
  have a: "board9 threeBlanks" "cells_ok threeBlanks" "no_dups threeBlanks" by code_simp+
  have b: "solveSudoku threeBlanks
        = Some (True, [place threeBlanks 0 0 (Num 3), threeBlanks, place threeBlanks 0 0 (Num 5),
                       place (place threeBlanks 0 0 (Num 5)) 0 1 (Num 3), solvedGrid])"
    by code_simp
  have c: "board9 deadEnd" "cells_ok deadEnd" "no_dups deadEnd" by code_simp+
  have d: "solveSudoku deadEnd = Some (False, [])" by code_simp
  from solve_true_iff_completion[OF a] b have "\<exists>s. completion threeBlanks s" by simp
  moreover from solve_true_iff_completion[OF c] d have "\<not> (\<exists>s. completion deadEnd s)" by simp
  ultimately show ?thesis using a b c d by simp
qed

text \<open>
  C2. For every 9x9 board of the data model with no duplicates among its filled
  cells, when \<^verbatim>\<open>solveSudoku\<close> returns true the board on display at the end (the last one
  handed to \<^verbatim>\<open>setBoard\<close>, or the input when there was none) has no empty cell, has
  each of 1 to 9 exactly once in every row, column and box, and \<^verbatim>\<open>checkSolution\<close> on it
  returns \<^verbatim>\<open>isValid\<close> true with no conflicts.
\<close>

theorem solve_result_is_solved:
  assumes "board9 b" "cells_ok b" "no_dups b" "solveSudoku b = Some (True, snaps)"
  shows "full (final_board b snaps) \<and> solved (final_board b snaps)
         \<and> checkSolution (final_board b snaps) = Some (True, [])"
proof -
  let ?f = "final_board b snaps"
  have f: "board9 ?f" "cells_ok ?f" "no_dups ?f" "full ?f"
    using final_props(1,3,4)[OF assms(1,4)] assms(2,3) success_full(1)[OF assms(1,4)] by simp_all
  from check_units_board9[OF f(1) units_in_range, of "[]"] checkSolution_board9[OF f(1)]
  obtain cs where cs: "checkSolution ?f = Some (complete ?f \<and> cs = [], cs)"
    "set cs = {q. \<exists>u \<in> set units. doubled ?f u q}" by blast
  from f(3) have "set cs = {}" unfolding cs(2) no_dups_iff[OF f(1,2)] .
  then have "cs = []" by simp
  with cs(1) complete_full[OF f(1,2)] f(4) have "checkSolution ?f = Some (True, [])" by simp
  with f(4) solved_intro[OF f(1,2,4,3)] show ?thesis by simp
qed

theorem solve_result_is_solved_witness:
  "board9 threeBlanks \<and> cells_ok threeBlanks \<and> no_dups threeBlanks
   \<and> solveSudoku threeBlanks
        = Some (True, [place threeBlanks 0 0 (Num 3), threeBlanks, place threeBlanks 0 0 (Num 5),
                       place (place threeBlanks 0 0 (Num 5)) 0 1 (Num 3), solvedGrid])
   \<and> full solvedGrid \<and> solved solvedGrid \<and> checkSolution solvedGrid = Some (True, [])"
proof -
  have a: "board9 threeBlanks" "cells_ok threeBlanks" "no_dups threeBlanks" by code_simp+
  have b: "solveSudoku threeBlanks
        = Some (True, [place threeBlanks 0 0 (Num 3), threeBlanks, place threeBlanks 0 0 (Num 5),
                       place (place threeBlanks 0 0 (Num 5)) 0 1 (Num 3), solvedGrid])"
    by code_simp
  from solve_result_is_solved[OF a b] show ?thesis using a b by (simp add: final_board_def)
qed

text \<open>
  C3 (as amended). For every board of nine rows of nine cells, every position \<open>(r, c)\<close>
  with \<open>r\<close> and \<open>c\<close> in 0..8 and every value \<open>v\<close>, \<^verbatim>\<open>isValid(board, r, c, v)\<close> returns
  false exactly when \<open>v\<close> occurs in some cell of row \<open>r\<close>, of column \<open>c\<close> or of the box of
  \<open>(r, c)\<close>, the cell \<open>(r, c)\<close> itself included: the three loops read every cell of the
  unit, so the content of \<open>(r, c)\<close> is not ignored and the function returns false when
  \<^verbatim>\<open>board[r][c]\<close> already equals \<open>v\<close>. When the cell holds something else (it is empty at
  every call the solver makes), the function returns false exactly when \<open>v\<close> occurs
  elsewhere in those units.
\<close>

theorem isValid_counts_own_cell:
  assumes "board9 b" "r < 9" "c < 9"
  shows "isValid b r c v = Some (\<not> (at b (r, c) = Num v \<or> occurs_elsewhere b r c v))"
proof -
  have "(\<forall>p \<in> set (peers r c). at b p \<noteq> Num v) = (\<not> (\<exists>p \<in> set (peers r c). at b p = Num v))"
    by blast
  then show ?thesis
    using isValid_board9[OF assms, of v] peers_hit[OF assms(2,3), of b v] by simp
qed

theorem isValid_counts_own_cell_witness:
  "board9 exampleBoard \<and> (0::nat) < 9 \<and> (2::nat) < 9
   \<and> isValid exampleBoard 0 2 4
       = Some (\<not> (at exampleBoard (0, 2) = Num 4 \<or> occurs_elsewhere exampleBoard 0 2 4))
   \<and> isValid exampleBoard 0 2 4 = Some True
   \<and> isValid exampleBoard 0 0 5 = Some False"
proof -
  have a: "isValid exampleBoard 0 2 4 = Some True" by code_simp
  have b: "isValid exampleBoard 0 0 5 = Some False" by code_simp
  show ?thesis
    using isValid_counts_own_cell[OF board9_exampleBoard, of 0 2 4] a b board9_exampleBoard
    by simp
qed

theorem isValid_ignores_own_cell_counterexample:
  "\<not> (isValid exampleBoard 0 0 5 = Some False \<longleftrightarrow> occurs_elsewhere exampleBoard 0 0 5)"
proof -
  have "isValid exampleBoard 0 0 5 = Some False" by code_simp
  moreover have "\<not> occurs_elsewhere exampleBoard 0 0 5" by code_simp
  ultimately show ?thesis by simp
qed

text \<open>
  C4. For every 9x9 board of the data model, the conflicts returned by \<^verbatim>\<open>checkSolution\<close>
  are, each one once, exactly the positions \<open>q\<close> for which some unit (row, column or
  box) contains \<open>q\<close>, the cell at \<open>q\<close> is filled, and its value occurs two or more times
  in that unit: all occurrences of a duplicated value, and nothing else. On the board
  whose only filled cells are 5 at \<open>(0, 0)\<close> and 5 at \<open>(0, 3)\<close> the conflicts are
  \<open>(0, 0)\<close> and \<open>(0, 3)\<close>.
\<close>

theorem check_conflicts_are_the_doubled_cells:
  assumes "board9 b" "cells_ok b"
  shows "(\<exists>ok conflicts. checkSolution b = Some (ok, conflicts) \<and> distinct conflicts
            \<and> set conflicts = {q. \<exists>u \<in> set units. q \<in> set u \<and> at b q \<noteq> Null
                                   \<and> 2 \<le> count_list (map (at b) u) (at b q)})
         \<and> checkSolution fiveTwice = Some (False, [(0, 0), (0, 3)])"
proof -
  from checkSolution_board9[OF assms(1)] obtain cs where
    cs: "checkSolution b = Some (complete b \<and> cs = [], cs)"
      "set cs = {q. \<exists>u \<in> set units. doubled b u q}" "distinct cs" by blast
  have "doubled b u q \<longleftrightarrow> q \<in> set u \<and> at b q \<noteq> Null \<and> 2 \<le> count_list (map (at b) u) (at b q)"
    if "u \<in> set units" for u q
    using that units_in_range falsy_Null[OF assms, of q] unfolding doubled_def by blast
  then have "{q. \<exists>u \<in> set units. doubled b u q}
      = {q. \<exists>u \<in> set units. q \<in> set u \<and> at b q \<noteq> Null
                \<and> 2 \<le> count_list (map (at b) u) (at b q)}" by blast
  with cs have "\<exists>ok conflicts. checkSolution b = Some (ok, conflicts) \<and> distinct conflicts
            \<and> set conflicts = {q. \<exists>u \<in> set units. q \<in> set u \<and> at b q \<noteq> Null
                                   \<and> 2 \<le> count_list (map (at b) u) (at b q)}" by simp
  moreover have "checkSolution fiveTwice = Some (False, [(0, 0), (0, 3)])" by code_simp
  ultimately show ?thesis by blast
qed

theorem check_conflicts_are_the_doubled_cells_witness:
  "board9 fiveTwice \<and> cells_ok fiveTwice
   \<and> checkSolution fiveTwice = Some (False, [(0, 0), (0, 3)])
   \<and> {q. \<exists>u \<in> set units. q \<in> set u \<and> at fiveTwice q \<noteq> Null
            \<and> 2 \<le> count_list (map (at fiveTwice) u) (at fiveTwice q)} = {(0, 0), (0, 3)}"
proof -
  have a: "board9 fiveTwice" "cells_ok fiveTwice" by code_simp+
  have b: "checkSolution fiveTwice = Some (False, [(0, 0), (0, 3)])" by code_simp
  from check_conflicts_are_the_doubled_cells[OF a] obtain ok cs where
    cs: "checkSolution fiveTwice = Some (ok, cs)"
      "set cs = {q. \<exists>u \<in> set units. q \<in> set u \<and> at fiveTwice q \<noteq> Null
            \<and> 2 \<le> count_list (map (at fiveTwice) u) (at fiveTwice q)}" by blast
  from cs(1) b have "cs = [(0, 0), (0, 3)]" by simp
  with cs(2) have "{q. \<exists>u \<in> set units. q \<in> set u \<and> at fiveTwice q \<noteq> Null
            \<and> 2 \<le> count_list (map (at fiveTwice) u) (at fiveTwice q)} = {(0, 0), (0, 3)}"
    by simp
  with a b show ?thesis by simp
qed

text \<open>
  C5. For every 9x9 board of the data model, \<^verbatim>\<open>checkSolution\<close> returns \<^verbatim>\<open>isValid\<close> true
  if and only if the board has no empty cell and the conflicts are empty. The conflicts
  do not depend on whether the board is complete: they are the filled cells that
  share their value with another cell of one of their units, and they are empty
  exactly when the board has no duplicates. The witness is an incomplete board that
  reports its two conflicting cells.
\<close>

theorem check_valid_iff_full_and_no_conflicts:
  assumes "board9 b" "cells_ok b"
  shows "\<exists>conflicts. checkSolution b = Some (full b \<and> conflicts = [], conflicts)
           \<and> (conflicts = [] \<longleftrightarrow> no_dups b)
           \<and> set conflicts = {q \<in> set all_cells. at b q \<noteq> Null
                 \<and> (\<exists>p \<in> set all_cells. p \<noteq> q \<and> same_unit p q \<and> at b p = at b q)}"
proof -
  from checkSolution_board9[OF assms(1)] obtain cs where
    cs: "checkSolution b = Some (complete b \<and> cs = [], cs)"
      "set cs = {q. \<exists>u \<in> set units. doubled b u q}" by blast
  have "cs = [] \<longleftrightarrow> set cs = {}" by simp
  then have "cs = [] \<longleftrightarrow> no_dups b" unfolding cs(2) no_dups_iff[OF assms] .
  moreover have "set cs = {q \<in> set all_cells. at b q \<noteq> Null
                 \<and> (\<exists>p \<in> set all_cells. p \<noteq> q \<and> same_unit p q \<and> at b p = at b q)}"
    unfolding cs(2) doubled_iff using falsy_Null[OF assms] by blast
  ultimately show ?thesis using cs(1) complete_full[OF assms] by simp
qed

theorem check_valid_iff_full_and_no_conflicts_witness:
  "board9 fiveTwice \<and> cells_ok fiveTwice \<and> \<not> full fiveTwice \<and> \<not> no_dups fiveTwice
   \<and> checkSolution fiveTwice = Some (False, [(0, 0), (0, 3)])
   \<and> board9 solvedGrid \<and> cells_ok solvedGrid \<and> full solvedGrid \<and> no_dups solvedGrid
   \<and> checkSolution solvedGrid = Some (True, [])"
proof -
  have a: "board9 fiveTwice" "cells_ok fiveTwice" by code_simp+
  have b: "checkSolution fiveTwice = Some (False, [(0, 0), (0, 3)])" by code_simp
  have c: "board9 solvedGrid" "cells_ok solvedGrid" by code_simp+
  have d: "checkSolution solvedGrid = Some (True, [])" by code_simp
  have e: "\<not> full fiveTwice" by code_simp
  from check_valid_iff_full_and_no_conflicts[OF a] obtain cs where
    cs: "checkSolution fiveTwice = Some (full fiveTwice \<and> cs = [], cs)"
      "cs = [] \<longleftrightarrow> no_dups fiveTwice" by blast
  from cs(1) b have "cs = [(0, 0), (0, 3)]" by simp
  with cs(2) have f: "\<not> no_dups fiveTwice" by simp
  from check_valid_iff_full_and_no_conflicts[OF c] obtain cs' where
    cs': "checkSolution solvedGrid = Some (full solvedGrid \<and> cs' = [], cs')"
      "cs' = [] \<longleftrightarrow> no_dups solvedGrid" by blast
  from cs'(1) d have "full solvedGrid \<and> cs' = []" by simp
  with cs'(2) have g: "full solvedGrid" "no_dups solvedGrid" by simp_all
  from a b c d e f g show ?thesis by simp
qed

text \<open>
  C6. From a 9x9 board with no duplicates, every board handed to \<^verbatim>\<open>setBoard\<close> during the
  run has no duplicates. A recursive call is made on the board that was handed to
  \<^verbatim>\<open>setBoard\<close> just before it, so the boards of the recursive calls are among them. The
  second part states the two steps: on the input board and on every such board, a
  placement that \<^verbatim>\<open>isValid\<close> accepts at an empty cell keeps the property, and so does the
  removal that undoes it.
\<close>

theorem solve_preserves_no_dups:
  assumes "board9 b" "no_dups b" "solveSudoku b = Some (res, snaps)"
  shows "(\<forall>s \<in> set snaps. no_dups s)
    \<and> (\<forall>s \<in> set (b # snaps). \<forall>row < 9. \<forall>col < 9. \<forall>num.
          at s (row, col) = Null \<and> isValid s row col num = Some True \<longrightarrow>
            no_dups (place s row col (Num num))
            \<and> no_dups (place (place s row col (Num num)) row col Null))"
proof (intro conjI ballI allI impI)
  fix s assume "s \<in> set snaps"
  from snaps_props(4)[OF assms(1,3) this assms(2)] show "no_dups s" .
next
  fix s row col num
  assume s: "s \<in> set (b # snaps)" and rc: "row < 9" "col < 9"
    and h: "at s (row, col) = Null \<and> isValid s row col num = Some True"
  from s snaps_props(1,4)[OF assms(1,3)] assms(1,2) have s9: "board9 s" "no_dups s" by auto
  from no_dups_place[OF s9 rc] h show "no_dups (place s row col (Num num))" by simp
  from place_undo[OF s9(1) rc] h s9(2)
  show "no_dups (place (place s row col (Num num)) row col Null)" by simp
qed

theorem solve_preserves_no_dups_witness:
  "board9 threeBlanks \<and> no_dups threeBlanks
   \<and> solveSudoku threeBlanks
        = Some (True, [place threeBlanks 0 0 (Num 3), threeBlanks, place threeBlanks 0 0 (Num 5),
                       place (place threeBlanks 0 0 (Num 5)) 0 1 (Num 3), solvedGrid])
   \<and> no_dups (place threeBlanks 0 0 (Num 3)) \<and> no_dups (place threeBlanks 0 0 (Num 5))
   \<and> no_dups (place (place threeBlanks 0 0 (Num 5)) 0 1 (Num 3)) \<and> no_dups solvedGrid"
proof -
  have a: "board9 threeBlanks" "no_dups threeBlanks" by code_simp+
  have b: "solveSudoku threeBlanks
        = Some (True, [place threeBlanks 0 0 (Num 3), threeBlanks, place threeBlanks 0 0 (Num 5),
                       place (place threeBlanks 0 0 (Num 5)) 0 1 (Num 3), solvedGrid])"
    by code_simp
  from solve_preserves_no_dups[OF a b] show ?thesis using a b by simp
qed

text \<open>
  C7 (as amended). \<^verbatim>\<open>solveSudoku\<close> does not write into the board it is given. Every
  placement goes into a fresh copy of the outer array and of the row concerned, so
  that after a call, whatever it returns, every array that was in the store before
  the call holds what it held, the argument among them. With enough fuel for the
  depth of the search (more than the number of empty cells) the run on the store
  returns what the run on board values returns. After a call that returns true, the
  argument holds a completely filled board only when it was completely filled before
  the call, and then the call returns true with no board handed to \<^verbatim>\<open>setBoard\<close>;
  otherwise the argument still has its empty cells and the completely filled board
  is the last one handed to \<^verbatim>\<open>setBoard\<close>. When the input is a board of the data model
  with no duplicates among its filled cells, that filled board (the argument if it
  was full, the last one handed to \<^verbatim>\<open>setBoard\<close> if not) has each of 1 to 9 exactly once
  in every row, column and box.
\<close>

theorem solve_writes_to_copies:
  assumes "valid_board h board" "board9 (board_of h board)" "empties (board_of h board) < fuel"
  shows "\<exists>res snaps h'. solveSudoku_st fuel h board = Some (res, snaps, h')
           \<and> solveSudoku (board_of h board) = Some (res, snaps)
           \<and> extends h h' \<and> board_of h' board = board_of h board
           \<and> (full (board_of h board) \<longrightarrow> res \<and> snaps = [])
           \<and> (res \<and> \<not> full (board_of h board) \<longrightarrow>
                 snaps \<noteq> [] \<and> full (last snaps) \<and> \<not> full (board_of h' board))
           \<and> (res \<and> cells_ok (board_of h board) \<and> no_dups (board_of h board) \<longrightarrow>
                 solved (final_board (board_of h board) snaps))"
proof -
  let ?b = "board_of h board"
  from st_total(1)[OF assms] obtain res snaps h'
    where s: "solveSudoku_st fuel h board = Some (res, snaps, h')" by fastforce
  from st_refines(1)[OF assms(1) s]
  have p: "solveSudoku ?b = Some (res, snaps)" and e: "extends h h'" by simp_all
  have same: "board_of h' board = ?b" by (rule extends_board(2)[OF e assms(1)])
  have 1: "res \<and> snaps = []" if "full ?b"
    using full_returns_at_once[OF assms(2) that] p by simp
  have 2: "snaps \<noteq> [] \<and> full (last snaps) \<and> \<not> full (board_of h' board)"
    if "res \<and> \<not> full ?b"
    using success_on_empty[OF assms(2), of snaps] p that same by simp
  have 3: "solved (final_board ?b snaps)" if "res \<and> cells_ok ?b \<and> no_dups ?b"
    using final_solved[OF assms(2), of snaps] p that by simp
  from s p e same 1 2 3 show ?thesis by blast
qed

theorem solve_writes_to_copies_witness:
  "valid_board (store_of oneBlank) 0 \<and> board9 (board_of (store_of oneBlank) 0)
   \<and> empties (board_of (store_of oneBlank) 0) < 2
   \<and> \<not> full oneBlank \<and> cells_ok oneBlank \<and> no_dups oneBlank
   \<and> solveSudoku oneBlank = Some (True, [solvedGrid])
   \<and> (\<exists>h'. solveSudoku_st 2 (store_of oneBlank) 0 = Some (True, [solvedGrid], h')
          \<and> extends (store_of oneBlank) h' \<and> board_of h' 0 = oneBlank
          \<and> \<not> full (board_of h' 0))
   \<and> full solvedGrid \<and> solved solvedGrid
   \<and> valid_board (store_of solvedGrid) 0 \<and> board9 (board_of (store_of solvedGrid) 0)
   \<and> empties (board_of (store_of solvedGrid) 0) < 1
   \<and> (\<exists>h'. solveSudoku_st 1 (store_of solvedGrid) 0 = Some (True, [], h')
          \<and> board_of h' 0 = solvedGrid)"
proof -
  have a: "valid_board (store_of oneBlank) 0" by (rule store_of_valid)
  have b: "board9 (board_of (store_of oneBlank) 0)" unfolding store_of_board by code_simp
  have c: "empties (board_of (store_of oneBlank) 0) < 2" unfolding store_of_board by code_simp
  have d: "solveSudoku oneBlank = Some (True, [solvedGrid])" by code_simp
  have f: "\<not> full oneBlank" "cells_ok oneBlank" "no_dups oneBlank" by code_simp+
  from solve_writes_to_copies[OF a b c] obtain res snaps h' where
    x: "solveSudoku_st 2 (store_of oneBlank) 0 = Some (res, snaps, h')"
      "solveSudoku oneBlank = Some (res, snaps)"
      "extends (store_of oneBlank) h'" "board_of h' 0 = oneBlank"
      "res \<and> \<not> full oneBlank \<longrightarrow>
         snaps \<noteq> [] \<and> full (last snaps) \<and> \<not> full (board_of h' 0)"
      "res \<and> cells_ok oneBlank \<and> no_dups oneBlank \<longrightarrow> solved (final_board oneBlank snaps)"
    unfolding store_of_board by blast
  from x(2) d have rs: "res = True" "snaps = [solvedGrid]" by simp_all
  from x(5,6) rs f have g: "full solvedGrid" "\<not> full (board_of h' 0)" "solved solvedGrid"
    by (simp_all add: final_board_def)
  from x(1,3,4) rs g(2)
  have one: "\<exists>h'. solveSudoku_st 2 (store_of oneBlank) 0 = Some (True, [solvedGrid], h')
          \<and> extends (store_of oneBlank) h' \<and> board_of h' 0 = oneBlank
          \<and> \<not> full (board_of h' 0)" by blast
  have a': "valid_board (store_of solvedGrid) 0" by (rule store_of_valid)
  have b': "board9 (board_of (store_of solvedGrid) 0)" unfolding store_of_board by code_simp
  have c': "empties (board_of (store_of solvedGrid) 0) < 1" unfolding store_of_board by code_simp
  from solve_writes_to_copies[OF a' b' c'] obtain res' snaps' h'' where
    y: "solveSudoku_st 1 (store_of solvedGrid) 0 = Some (res', snaps', h'')"
      "board_of h'' 0 = solvedGrid" "full solvedGrid \<longrightarrow> res' \<and> snaps' = []"
    unfolding store_of_board by blast
  from y g(1) have two: "\<exists>h'. solveSudoku_st 1 (store_of solvedGrid) 0 = Some (True, [], h')
          \<and> board_of h' 0 = solvedGrid" by auto
  from a b c d f one g(1,3) a' b' c' two show ?thesis by simp
qed

text \<open>
  C7 as stated fails: on the solved grid with its last cell cleared the call returns
  true, and the array passed as argument still has the empty cell.
\<close>

theorem solve_mutates_argument_counterexample:
  "\<exists>h'. solveSudoku_st 2 (store_of oneBlank) 0 = Some (True, [solvedGrid], h')
      \<and> board_of h' 0 = oneBlank \<and> \<not> full (board_of h' 0) \<and> board_of h' 0 \<noteq> solvedGrid"
proof -
  have "case solveSudoku_st 2 (store_of oneBlank) 0 of
          None \<Rightarrow> False
        | Some (res, snaps, h') \<Rightarrow> res \<and> snaps = [solvedGrid] \<and> board_of h' 0 = oneBlank
            \<and> \<not> full (board_of h' 0) \<and> board_of h' 0 \<noteq> solvedGrid"
    by code_simp
  then show ?thesis by (auto split: option.splits)
qed

text \<open>
  C8. On every 9x9 board, with or without duplicates among the filled cells,
  \<^verbatim>\<open>solveSudoku\<close> returns a boolean. Every recursive call is made on a board with fewer
  empty cells, a board has at most 81 of them, and a stack of nested calls below the
  call on \<open>b\<close> is no deeper than the number of empty cells of \<open>b\<close>.
\<close>

theorem solve_terminates:
  assumes "board9 b"
  shows "(\<exists>res snaps. solveSudoku b = Some (res, snaps))
    \<and> empties b \<le> 81
    \<and> (\<forall>b'. calls b b' \<longrightarrow> empties b' < empties b)
    \<and> (\<forall>bs. call_chain (b # bs) \<longrightarrow> length bs \<le> empties b)"
proof -
  from solve_total(1)[OF assms] have "\<exists>res snaps. solveSudoku b = Some (res, snaps)" by fastforce
  moreover have "\<forall>b'. calls b b' \<longrightarrow> empties b' < empties b"
    using calls_empties[of b] by fastforce
  ultimately show ?thesis using empties_le_81[OF assms] call_chain_depth by blast
qed

theorem solve_terminates_witness:
  "board9 twoBlanks \<and> \<not> no_dups twoBlanks
   \<and> solveSudoku twoBlanks
       = Some (True, [place twoBlanks 0 0 (Num 2), place (place twoBlanks 0 0 (Num 2)) 0 1 (Num 3)])
   \<and> empties twoBlanks = 2
   \<and> call_chain [twoBlanks, place twoBlanks 0 0 (Num 2),
                  place (place twoBlanks 0 0 (Num 2)) 0 1 (Num 3)]
   \<and> empties (place twoBlanks 0 0 (Num 2)) < empties twoBlanks"
proof -
  have a: "board9 twoBlanks" by code_simp
  have "at twoBlanks (1, 0) = at twoBlanks (1, 1)" "at twoBlanks (1, 0) \<noteq> Null" by code_simp+
  moreover have "(1, 0) \<in> set all_cells" "(1, 1) \<in> set all_cells" by (simp_all add: in_all_cells)
  moreover have "same_unit (1, 0) (1, 1)" by (simp add: same_unit_def)
  ultimately have b: "\<not> no_dups twoBlanks"
    unfolding no_dups_def by (metis prod.inject zero_neq_one)
  have c: "solveSudoku twoBlanks
       = Some (True, [place twoBlanks 0 0 (Num 2), place (place twoBlanks 0 0 (Num 2)) 0 1 (Num 3)])"
    by code_simp
  have d: "empties twoBlanks = 2" by code_simp
  have e: "calls twoBlanks (place twoBlanks 0 0 (Num 2))" by code_simp
  have f: "call_chain [twoBlanks, place twoBlanks 0 0 (Num 2),
                  place (place twoBlanks 0 0 (Num 2)) 0 1 (Num 3)]" by code_simp
  from solve_terminates[OF a] e have "empties (place twoBlanks 0 0 (Num 2)) < empties twoBlanks"
    by blast
  with a b c d f show ?thesis by simp
qed

text \<open>
  C9. For every board with no empty cell, \<^verbatim>\<open>solveSudoku\<close> returns true with no call of
  \<^verbatim>\<open>setBoard\<close>, hence with no placement and no removal; nothing is assumed about
  duplicates on the board, and the witness is a board that holds the same value in
  every cell.
\<close>

theorem solve_full_board:
  assumes "board9 b" "full b"
  shows "solveSudoku b = Some (True, [])"
proof (rule find_null_cases[OF assms(1)])
  assume "find_null b all_cells = Some None"
  then show ?thesis by (rule solve_filled)
next
  fix row col
  assume "row < 9" "col < 9" "at b (row, col) = Null"
  with assms(2) show ?thesis by (auto simp: full_def in_all_cells)
qed

theorem solve_full_board_witness:
  "board9 all_ones \<and> full all_ones \<and> \<not> no_dups all_ones \<and> solveSudoku all_ones = Some (True, [])"
proof -
  have a: "board9 all_ones" by code_simp
  have b: "full all_ones" by code_simp
  have "at all_ones (0, 0) = at all_ones (0, 1)" by code_simp
  moreover have "at all_ones (0, 0) \<noteq> Null" by code_simp
  moreover have "(0, 0) \<in> set all_cells" "(0, 1) \<in> set all_cells" by (simp_all add: in_all_cells)
  moreover have "same_unit (0, 0) (0, 1)" by (simp add: same_unit_def)
  ultimately have c: "\<not> no_dups all_ones" unfolding no_dups_def by (metis prod.inject zero_neq_one)
  from solve_full_board[OF a b] a b c show ?thesis by simp
qed

text \<open>
  C10. Every board handed to \<^verbatim>\<open>setBoard\<close> during a run on a 9x9 board, and the board on
  display when the run ends, agree with the input board on every cell that is filled
  in the input.
\<close>

theorem solve_keeps_filled_cells:
  assumes "board9 b" "solveSudoku b = Some (res, snaps)"
  shows "(\<forall>s \<in> set snaps. board9 s \<and> keeps b s) \<and> keeps b (final_board b snaps)"
  using snaps_props(1,2)[OF assms] final_props(2)[OF assms] by blast

theorem solve_keeps_filled_cells_witness:
  "board9 threeBlanks
   \<and> solveSudoku threeBlanks
        = Some (True, [place threeBlanks 0 0 (Num 3), threeBlanks, place threeBlanks 0 0 (Num 5),
                       place (place threeBlanks 0 0 (Num 5)) 0 1 (Num 3), solvedGrid])
   \<and> keeps threeBlanks (place threeBlanks 0 0 (Num 3))
   \<and> keeps threeBlanks (place threeBlanks 0 0 (Num 5))
   \<and> keeps threeBlanks solvedGrid"
proof -
  have a: "board9 threeBlanks" by code_simp
  have b: "solveSudoku threeBlanks
        = Some (True, [place threeBlanks 0 0 (Num 3), threeBlanks, place threeBlanks 0 0 (Num 5),
                       place (place threeBlanks 0 0 (Num 5)) 0 1 (Num 3), solvedGrid])"
    by code_simp
  from solve_keeps_filled_cells[OF a b] show ?thesis using a b by simp
qed

end
